theory Spec2Isabelle
  imports Main "HOL-Library.Sublist"
begin

section \<open>Strings and paths\<close>

text \<open>
  The pipeline of \<^verbatim>\<open>pipe.py\<close> is four \<^verbatim>\<open>luigi\<close> tasks that work on the local
  file system through \<^verbatim>\<open>os\<close>, \<^verbatim>\<open>os.path\<close>, \<^verbatim>\<open>tarfile\<close>, \<^verbatim>\<open>gzip\<close> and \<^verbatim>\<open>pandas\<close>.
  Python strings are \<^typ>\<open>string\<close>; the string methods the tasks call are written out.
\<close>

definition NL :: char where
  "NL = CHR 0x0A"

definition TAB :: char where
  "TAB = CHR 0x09"

definition startswith :: "string \<Rightarrow> string \<Rightarrow> bool" where
  "startswith s p = (take (length p) s = p)"

definition endswith :: "string \<Rightarrow> string \<Rightarrow> bool" where
  "endswith s p = (length p \<le> length s \<and> drop (length s - length p) s = p)"

text \<open>\<^verbatim>\<open>s.strip(chars)\<close>: leading and trailing characters of the set are removed.\<close>

definition strip :: "string \<Rightarrow> string \<Rightarrow> string" where
  "strip chars s =
     rev (dropWhile (\<lambda>c. c \<in> set chars) (rev (dropWhile (\<lambda>c. c \<in> set chars) s)))"

text \<open>
  \<^verbatim>\<open>s.replace(old, new)\<close> for a non-empty \<^verbatim>\<open>old\<close>: the occurrences are found from the
  left and do not overlap.
\<close>

function replace :: "string \<Rightarrow> string \<Rightarrow> string \<Rightarrow> string" where
  "replace old new s =
     (if s = [] \<or> old = [] then s
      else if startswith s old then new @ replace old new (drop (length old) s)
      else hd s # replace old new (tl s))"
  by pat_completeness auto
termination
  by (relation "measure (\<lambda>(old, new, s). length s)") auto

declare replace.simps [simp del]

text \<open>
  Universal newlines: \<^verbatim>\<open>\r\n\<close> and a lone \<^verbatim>\<open>\r\<close> end a line as \<^verbatim>\<open>\n\<close> does. Python's text
  mode translates them on reading, and the tokenizer of \<^verbatim>\<open>pandas\<close> ends a line at each.
\<close>

definition CR :: char where
  "CR = CHR 0x0D"

fun universal_newlines :: "string \<Rightarrow> string" where
  "universal_newlines [] = []"
| "universal_newlines [c] = (if c = CR then [NL] else [c])"
| "universal_newlines (c # d # cs) =
     (if c = CR \<and> d = NL then NL # universal_newlines cs
      else if c = CR then NL # universal_newlines (d # cs)
      else c # universal_newlines (d # cs))"

text \<open>\<^verbatim>\<open>s.split(c)\<close> for a one-character separator.\<close>

fun split_on :: "char \<Rightarrow> string \<Rightarrow> string list" where
  "split_on c [] = [[]]"
| "split_on c (x # xs) =
     (if x = c then [] # split_on c xs
      else (case split_on c xs of [] \<Rightarrow> [[x]] | w # ws \<Rightarrow> (x # w) # ws))"

text \<open>
  \<^verbatim>\<open>posixpath\<close>: \<^verbatim>\<open>join\<close> of two arguments, \<^verbatim>\<open>basename\<close>, \<^verbatim>\<open>dirname\<close> and \<^verbatim>\<open>splitext\<close>,
  after the library's own code (\<^verbatim>\<open>rfind\<close> of the separator, \<^verbatim>\<open>rstrip\<close> of the head,
  leading dots of the file name are no extension).
\<close>

definition os_path_join :: "string \<Rightarrow> string \<Rightarrow> string" where
  "os_path_join a b =
     (if startswith b ''/'' then b
      else if a = [] \<or> endswith a ''/'' then a @ b
      else a @ ''/'' @ b)"

definition os_path_basename :: "string \<Rightarrow> string" where
  "os_path_basename p = rev (takeWhile (\<lambda>c. c \<noteq> CHR ''/'') (rev p))"

definition os_path_dirname :: "string \<Rightarrow> string" where
  "os_path_dirname p =
     (let head = rev (dropWhile (\<lambda>c. c \<noteq> CHR ''/'') (rev p))
      in if head \<noteq> [] \<and> list_ex (\<lambda>c. c \<noteq> CHR ''/'') head
         then rev (dropWhile (\<lambda>c. c = CHR ''/'') (rev head))
         else head)"

definition os_path_splitext :: "string \<Rightarrow> string \<times> string" where
  "os_path_splitext p =
     (let b = os_path_basename p;
          ext = rev (takeWhile (\<lambda>c. c \<noteq> CHR ''.'') (rev b));
          stem = take (length b - length ext - 1) b
      in if CHR ''.'' \<in> set b \<and> list_ex (\<lambda>c. c \<noteq> CHR ''.'') stem
         then (take (length p - length ext - 1) p, CHR ''.'' # ext)
         else (p, []))"

section \<open>The tasks and their parameters\<close>

text \<open>
  Each class is a constructor whose arguments are the class's \<^verbatim>\<open>luigi.Parameter\<close>s in
  the order of their declaration, which is the order of positional arguments.
  A parameter left out of a constructor call takes its declared default.
\<close>

datatype task =
    DownloadDataset string string
  | ExtractAndProcessFiles string string string
  | TrimProbesTable string string string string
  | DeleteOriginalData string string string string

definition default_download_dir :: string where
  "default_download_dir = ''data''"

definition default_processed_dir :: string where
  "default_processed_dir = ''processed_data''"

definition default_trimmed_dir :: string where
  "default_trimmed_dir = ''trimmed_probes''"

text \<open>
  \<^verbatim>\<open>requires\<close>: \<^verbatim>\<open>DownloadDataset(self.dataset_id, self.download_dir)\<close>,
  \<^verbatim>\<open>ExtractAndProcessFiles(self.dataset_id)\<close> and \<^verbatim>\<open>TrimProbesTable(self.dataset_id)\<close>.
\<close>

fun requires :: "task \<Rightarrow> task option" where
  "requires (DownloadDataset dataset_id download_dir) = None"
| "requires (ExtractAndProcessFiles dataset_id download_dir output_dir) =
     Some (DownloadDataset dataset_id download_dir)"
| "requires (TrimProbesTable dataset_id download_dir processed_data_dir output_dir) =
     Some (ExtractAndProcessFiles dataset_id default_download_dir default_processed_dir)"
| "requires (DeleteOriginalData dataset_id download_dir processed_data_dir output_dir) =
     Some (TrimProbesTable dataset_id default_download_dir default_processed_dir
             default_trimmed_dir)"

text \<open>\<^verbatim>\<open>output\<close> (here \<open>output_target\<close>): the path of the task's \<^verbatim>\<open>LocalTarget\<close>.\<close>

fun output_target :: "task \<Rightarrow> string" where
  "output_target (DownloadDataset dataset_id download_dir) =
     os_path_join download_dir (dataset_id @ ''_RAW.tar'')"
| "output_target (ExtractAndProcessFiles dataset_id download_dir output_dir) = output_dir"
| "output_target (TrimProbesTable dataset_id download_dir processed_data_dir output_dir) =
     os_path_join output_dir ''Probes_trimmed.tsv''"
| "output_target (DeleteOriginalData dataset_id download_dir processed_data_dir output_dir) =
     os_path_join processed_data_dir ''delete_original_data.done''"

text \<open>The chain of tasks a build of \<open>t\<close> resolves: \<open>t\<close>, what it requires, and so on.\<close>

fun upstream :: "task \<Rightarrow> task list" where
  "upstream t =
     (case requires t of None \<Rightarrow> []
      | Some u \<Rightarrow> u # (case requires u of None \<Rightarrow> []
          | Some v \<Rightarrow> v # (case requires v of None \<Rightarrow> [] | Some w \<Rightarrow> [w])))"

section \<open>The file system and the exceptions\<close>

text \<open>
  The tasks communicate through the local file system only, so it is the state of the
  model: a tree whose root is the working directory of the process. A directory holds
  its entries in the order \<^verbatim>\<open>os.scandir\<close> lists them. A regular file holds its text and
  a flag that is set when the operating system refuses to remove or overwrite it (an
  immutable or busy file); this is where a deletion or a write can fail for a reason
  other than the shape of the tree. Symbolic links, permissions of directories and
  the component \<^verbatim>\<open>..\<close> are not modelled; a path is read as its components, empty
  components and \<^verbatim>\<open>.\<close> left out.
\<close>

datatype os_error = ENOENT | EEXIST | ENOTDIR | EISDIR | ENOTEMPTY | EPERM | EBUSY

datatype node = File bool string | Dir "(string \<times> node) list"

text \<open>
  An exception is a value. \<open>FileNotFoundError\<close> with a message is what the tasks raise
  themselves; \<open>OSError\<close> is an error of a system call, with the path it was made on;
  \<open>ValueError\<close> is what Python raises, before it asks the operating system, for a path
  with an embedded null character; the others are raised by \<^verbatim>\<open>pandas\<close>, \<^verbatim>\<open>tarfile\<close> and
  \<^verbatim>\<open>gzip\<close>.
\<close>

datatype error =
    FileNotFoundError string
  | OSError os_error string
  | ValueError
  | EmptyDataError
  | ParserError
  | KeyError
  | ReadError
  | BadGzipFile

text \<open>
  A task's \<^verbatim>\<open>run\<close> returns how it ended together with the file system it leaves
  behind, which an exception does not undo.
\<close>

datatype outcome = Done | Raised error

definition embedded_null :: "string \<Rightarrow> bool" where
  "embedded_null p = (CHR 0x00 \<in> set p)"

definition parts :: "string \<Rightarrow> string list" where
  "parts p = filter (\<lambda>c. c \<noteq> [] \<and> c \<noteq> ''.'') (split_on (CHR ''/'') p)"

fun lookup :: "node \<Rightarrow> string list \<Rightarrow> node option"
  and lookup_in :: "(string \<times> node) list \<Rightarrow> string \<Rightarrow> string list \<Rightarrow> node option" where
  "lookup n [] = Some n"
| "lookup (File l s) (c # cs) = None"
| "lookup (Dir es) (c # cs) = lookup_in es c cs"
| "lookup_in [] c cs = None"
| "lookup_in ((k, n) # es) c cs = (if k = c then lookup n cs else lookup_in es c cs)"

text \<open>A well-formed tree: no directory has two entries of one name.\<close>

fun wf_node :: "node \<Rightarrow> bool"
  and wf_entries :: "(string \<times> node) list \<Rightarrow> bool" where
  "wf_node (File l s) = True"
| "wf_node (Dir es) = wf_entries es"
| "wf_entries [] = True"
| "wf_entries ((k, n) # es) = (k \<notin> fst ` set es \<and> wf_node n \<and> wf_entries es)"

text \<open>
  The empty path names nothing (\<^verbatim>\<open>ENOENT\<close> for every system call). The tests of
  \<^verbatim>\<open>os.path\<close> are false where \<^verbatim>\<open>os.stat\<close> fails.
\<close>

definition stat :: "node \<Rightarrow> string \<Rightarrow> node option" where
  "stat fs p = (if p = [] then None else lookup fs (parts p))"

definition os_path_exists :: "node \<Rightarrow> string \<Rightarrow> bool" where
  "os_path_exists fs p = (stat fs p \<noteq> None)"

definition os_path_isfile :: "node \<Rightarrow> string \<Rightarrow> bool" where
  "os_path_isfile fs p = (case stat fs p of Some (File l s) \<Rightarrow> True | _ \<Rightarrow> False)"

definition os_path_isdir :: "node \<Rightarrow> string \<Rightarrow> bool" where
  "os_path_isdir fs p = (case stat fs p of Some (Dir es) \<Rightarrow> True | _ \<Rightarrow> False)"

text \<open>\<^verbatim>\<open>open(p)\<close> and \<^verbatim>\<open>read\<close>: the text of the file.\<close>

definition read_file :: "node \<Rightarrow> string \<Rightarrow> error + string" where
  "read_file fs p =
     (if embedded_null p then Inl ValueError
      else (case stat fs p of None \<Rightarrow> Inl (OSError ENOENT p)
            | Some (File l s) \<Rightarrow> Inr s
            | Some (Dir es) \<Rightarrow> Inl (OSError EISDIR p)))"

text \<open>
  One system call on the entry a path names: \<open>f\<close> sees the entry (\<open>None\<close> when the
  parent directory has no such name) and answers with an error, with the entry's
  replacement, or with \<open>None\<close> to unlink it. The directories on the way must exist.
\<close>

fun modify :: "(node option \<Rightarrow> os_error + node option) \<Rightarrow> string list \<Rightarrow> node \<Rightarrow> os_error + node"
  and modify_in :: "(node option \<Rightarrow> os_error + node option) \<Rightarrow> string \<Rightarrow> string list \<Rightarrow>
        (string \<times> node) list \<Rightarrow> os_error + (string \<times> node) list" where
  "modify f [] n =
     (case f (Some n) of Inl e \<Rightarrow> Inl e | Inr None \<Rightarrow> Inl EBUSY | Inr (Some n') \<Rightarrow> Inr n')"
| "modify f (c # cs) (File l s) = Inl ENOTDIR"
| "modify f (c # cs) (Dir es) =
     (case modify_in f c cs es of Inl e \<Rightarrow> Inl e | Inr es' \<Rightarrow> Inr (Dir es'))"
| "modify_in f c cs [] =
     (if cs = []
      then (case f None of Inl e \<Rightarrow> Inl e | Inr None \<Rightarrow> Inr [] | Inr (Some n') \<Rightarrow> Inr [(c, n')])
      else Inl ENOENT)"
| "modify_in f c cs ((k, n) # es) =
     (if k = c
      then (if cs = []
            then (case f (Some n) of Inl e \<Rightarrow> Inl e | Inr None \<Rightarrow> Inr es
                  | Inr (Some n') \<Rightarrow> Inr ((k, n') # es))
            else (case modify f cs n of Inl e \<Rightarrow> Inl e | Inr n' \<Rightarrow> Inr ((k, n') # es)))
      else (case modify_in f c cs es of Inl e \<Rightarrow> Inl e | Inr es' \<Rightarrow> Inr ((k, n) # es')))"

text \<open>\<^verbatim>\<open>open(p, 'w')\<close>, write, close: the file is created or its text replaced.\<close>

definition write_file :: "string \<Rightarrow> string \<Rightarrow> node \<Rightarrow> error + node" where
  "write_file p s fs =
     (if embedded_null p then Inl ValueError
      else if p = [] then Inl (OSError ENOENT p)
      else (case modify (\<lambda>cur. case cur of None \<Rightarrow> Inr (Some (File False s))
                           | Some (File l old) \<Rightarrow> if l then Inl EPERM else Inr (Some (File l s))
                           | Some (Dir es) \<Rightarrow> Inl EISDIR) (parts p) fs of
              Inl e \<Rightarrow> Inl (OSError e p)
            | Inr fs' \<Rightarrow> Inr fs'))"

text \<open>
  \<^verbatim>\<open>os.remove\<close> and \<^verbatim>\<open>os.rmdir\<close>. The cleaner calls them on the paths a walk has
  listed and on the top of that walk, so they are given as the system calls they
  make.
\<close>

definition os_remove :: "string \<Rightarrow> node \<Rightarrow> os_error + node" where
  "os_remove p fs =
     (if p = [] then Inl ENOENT
      else modify (\<lambda>cur. case cur of None \<Rightarrow> Inl ENOENT
                     | Some (File l s) \<Rightarrow> if l then Inl EPERM else Inr None
                     | Some (Dir es) \<Rightarrow> Inl EISDIR) (parts p) fs)"

definition os_rmdir :: "string \<Rightarrow> node \<Rightarrow> os_error + node" where
  "os_rmdir p fs =
     (if p = [] then Inl ENOENT
      else modify (\<lambda>cur. case cur of None \<Rightarrow> Inl ENOENT
                     | Some (File l s) \<Rightarrow> Inl ENOTDIR
                     | Some (Dir es) \<Rightarrow> if es = [] then Inr None else Inl ENOTEMPTY) (parts p) fs)"

text \<open>
  \<^verbatim>\<open>os.makedirs(p, exist_ok=True)\<close>: the missing directories of the path are created; a
  directory that is there already is no error, a regular file in its place or on the
  way is.
\<close>

fun fresh_dirs :: "string list \<Rightarrow> node" where
  "fresh_dirs [] = Dir []"
| "fresh_dirs (c # cs) = Dir [(c, fresh_dirs cs)]"

fun mkdirs :: "string list \<Rightarrow> node \<Rightarrow> os_error + node"
  and mkdirs_in :: "string \<Rightarrow> string list \<Rightarrow> (string \<times> node) list \<Rightarrow>
        os_error + (string \<times> node) list" where
  "mkdirs [] (Dir es) = Inr (Dir es)"
| "mkdirs [] (File l s) = Inl EEXIST"
| "mkdirs (c # cs) (File l s) = Inl ENOTDIR"
| "mkdirs (c # cs) (Dir es) =
     (case mkdirs_in c cs es of Inl e \<Rightarrow> Inl e | Inr es' \<Rightarrow> Inr (Dir es'))"
| "mkdirs_in c cs [] = Inr [(c, fresh_dirs cs)]"
| "mkdirs_in c cs ((k, n) # es) =
     (if k = c
      then (case mkdirs cs n of Inl e \<Rightarrow> Inl e | Inr n' \<Rightarrow> Inr ((k, n') # es))
      else (case mkdirs_in c cs es of Inl e \<Rightarrow> Inl e | Inr es' \<Rightarrow> Inr ((k, n) # es')))"

text \<open>
  A failed call leaves the tree as it was, with one exception. \<^verbatim>\<open>makedirs\<close> works from
  the left: for a path with an embedded null character it first makes the missing
  directories in front of the first component with that character (\<open>nul_free_head\<close>),
  unless that head exists or is empty, and then \<^verbatim>\<open>mkdir\<close> raises \<open>ValueError\<close>. So the
  error comes with the tree the call leaves.
\<close>

definition nul_free_head :: "string \<Rightarrow> string" where
  "nul_free_head p = os_path_dirname (takeWhile (\<lambda>c. c \<noteq> CHR 0x00) p)"

definition os_makedirs :: "string \<Rightarrow> node \<Rightarrow> (error \<times> node) + node" where
  "os_makedirs p fs =
     (if embedded_null p
      then (let head = nul_free_head p
            in if head = [] \<or> os_path_exists fs head then Inl (ValueError, fs)
               else (case mkdirs (parts head) fs of
                       Inl e \<Rightarrow> if e = EEXIST then Inl (ValueError, fs)
                                else Inl (OSError e head, fs)
                     | Inr fs' \<Rightarrow> Inl (ValueError, fs')))
      else if p = [] then Inl (OSError ENOENT p, fs)
      else (case mkdirs (parts p) fs of
              Inl e \<Rightarrow> Inl (OSError e p, fs)
            | Inr fs' \<Rightarrow> Inr fs'))"

text \<open>
  \<^verbatim>\<open>os.walk\<close>: one triple (root, directory names, file names) for the top directory
  and every directory below it. Top-down, a directory comes before its
  subdirectories; bottom-up (\<^verbatim>\<open>topdown=False\<close>), after them. A top that is no directory
  yields nothing (the \<^verbatim>\<open>OSError\<close> of \<^verbatim>\<open>scandir\<close> is ignored); a top with an embedded null
  character raises \<open>ValueError\<close>, which the walk does not catch.
\<close>

fun dirnames :: "(string \<times> node) list \<Rightarrow> string list" where
  "dirnames [] = []"
| "dirnames ((k, Dir es) # rest) = k # dirnames rest"
| "dirnames ((k, File l s) # rest) = dirnames rest"

fun filenames :: "(string \<times> node) list \<Rightarrow> string list" where
  "filenames [] = []"
| "filenames ((k, Dir es) # rest) = filenames rest"
| "filenames ((k, File l s) # rest) = k # filenames rest"

fun walk :: "string \<Rightarrow> node \<Rightarrow> (string \<times> string list \<times> string list) list"
  and walk_subdirs :: "string \<Rightarrow> (string \<times> node) list \<Rightarrow>
        (string \<times> string list \<times> string list) list" where
  "walk root (File l s) = []"
| "walk root (Dir es) = (root, dirnames es, filenames es) # walk_subdirs root es"
| "walk_subdirs root [] = []"
| "walk_subdirs root ((k, n) # es) = walk (os_path_join root k) n @ walk_subdirs root es"

fun walk_bottomup :: "string \<Rightarrow> node \<Rightarrow> (string \<times> string list \<times> string list) list"
  and walk_bottomup_subdirs :: "string \<Rightarrow> (string \<times> node) list \<Rightarrow>
        (string \<times> string list \<times> string list) list" where
  "walk_bottomup root (File l s) = []"
| "walk_bottomup root (Dir es) =
     walk_bottomup_subdirs root es @ [(root, dirnames es, filenames es)]"
| "walk_bottomup_subdirs root [] = []"
| "walk_bottomup_subdirs root ((k, n) # es) =
     walk_bottomup (os_path_join root k) n @ walk_bottomup_subdirs root es"

definition os_walk ::
  "node \<Rightarrow> string \<Rightarrow> error + (string \<times> string list \<times> string list) list" where
  "os_walk fs root =
     (if embedded_null root then Inl ValueError
      else Inr (case stat fs root of Some n \<Rightarrow> walk root n | None \<Rightarrow> []))"

definition os_walk_bottomup ::
  "node \<Rightarrow> string \<Rightarrow> error + (string \<times> string list \<times> string list) list" where
  "os_walk_bottomup fs root =
     (if embedded_null root then Inl ValueError
      else Inr (case stat fs root of Some n \<Rightarrow> walk_bottomup root n | None \<Rightarrow> []))"

section \<open>Tables\<close>

text \<open>
  A \<^verbatim>\<open>DataFrame\<close> as far as the tasks use one: the column labels and the rows of cells.
  A column read with a header row is labelled by its name, a column read with
  \<^verbatim>\<open>header=None\<close> by its position. Cells are kept as the text between the separators:
  the type inference of \<^verbatim>\<open>pandas\<close> and quoting are not modelled.
\<close>

datatype label = Name string | Pos nat

record table =
  columns :: "label list"
  rows :: "string list list"

datatype header_arg = Infer | NoHeader

function show_nat :: "nat \<Rightarrow> string" where
  "show_nat n =
     (if n < 10 then [char_of (48 + n)]
      else show_nat (n div 10) @ [char_of (48 + n mod 10)])"
  by pat_completeness auto
termination
  by (relation "measure id") auto

declare show_nat.simps [simp del]

fun show_label :: "label \<Rightarrow> string" where
  "show_label (Name s) = s"
| "show_label (Pos n) = show_nat n"

fun join_with :: "char \<Rightarrow> string list \<Rightarrow> string" where
  "join_with c [] = []"
| "join_with c [x] = x"
| "join_with c (x # y # ys) = x @ c # join_with c (y # ys)"

definition tab_fields :: "string \<Rightarrow> string list" where
  "tab_fields l = split_on TAB l"

text \<open>
  The lines \<^verbatim>\<open>read_csv\<close> keeps (\<^verbatim>\<open>skip_blank_lines=True\<close>): a line that is empty or holds
  spaces only is skipped; a line with a tab is a row of empty cells.
\<close>

definition is_blank :: "string \<Rightarrow> bool" where
  "is_blank l = list_all (\<lambda>c. c = CHR '' '') l"

definition nonblank_lines :: "string \<Rightarrow> string list" where
  "nonblank_lines s = filter (\<lambda>l. \<not> is_blank l) (split_on NL (universal_newlines s))"

text \<open>
  The names of a header row, as \<^verbatim>\<open>pandas\<close> 2 makes them. An empty name becomes
  \<^verbatim>\<open>Unnamed: i\<close>. Then the names are made distinct, those that were given first and
  the unnamed ones after them, each group from the left: \<open>counts\<close> holds how often a
  name was used; a name used before gets a dot and a number, counted on from that
  count until the result is no name of the header as it stands (\<open>free_suffix\<close>: the
  header has \<open>length hdr\<close> names, one of them the name itself, so the search ends
  within that many steps).
\<close>

fun name_unnamed :: "nat \<Rightarrow> string list \<Rightarrow> string list" where
  "name_unnamed i [] = []"
| "name_unnamed i (c # cs) =
     (if c = [] then ''Unnamed: '' @ show_nat i else c) # name_unnamed (Suc i) cs"

fun free_suffix :: "string list \<Rightarrow> string \<Rightarrow> nat \<Rightarrow> nat \<Rightarrow> nat" where
  "free_suffix hdr old_col cur_count 0 = cur_count"
| "free_suffix hdr old_col cur_count (Suc n) =
     (if old_col @ ''.'' @ show_nat cur_count \<in> set hdr
      then free_suffix hdr old_col (Suc cur_count) n
      else cur_count)"

fun dedup_names :: "nat list \<Rightarrow> string list \<Rightarrow> (string \<Rightarrow> nat) \<Rightarrow> string list" where
  "dedup_names [] hdr counts = hdr"
| "dedup_names (i # col_loop_order) hdr counts =
     (let old_col = hdr ! i;
          cur_count = counts old_col
      in if 0 < cur_count
         then (let k = free_suffix hdr old_col cur_count (length hdr);
                   col = old_col @ ''.'' @ show_nat k
               in dedup_names col_loop_order (hdr[i := col])
                    ((counts(old_col := Suc k))(col := 1)))
         else dedup_names col_loop_order hdr (counts(old_col := 1)))"

definition header_names :: "string list \<Rightarrow> string list" where
  "header_names fs =
     (let named = filter (\<lambda>i. fs ! i \<noteq> []) [0..<length fs];
          unnamed = filter (\<lambda>i. fs ! i = []) [0..<length fs]
      in dedup_names (named @ unnamed) (name_unnamed 0 fs) (\<lambda>c. 0))"

definition pad_row :: "nat \<Rightarrow> string list \<Rightarrow> string list" where
  "pad_row w r = r @ replicate (w - length r) []"

text \<open>
  The rows under the column labels. The first row of data gives the width, if it is
  wider than the header; a later row that is wider still is refused, a shorter row
  is filled up with missing values. Where the rows are wider than the header the
  cells in front are the index of the frame and not the cells of a column. No task
  reads the index (\<^verbatim>\<open>drop\<close> works on columns, \<^verbatim>\<open>to_csv\<close> is called with \<^verbatim>\<open>index=False\<close>), so
  the table does not hold it.
\<close>

definition build_table :: "label list \<Rightarrow> string list list \<Rightarrow> error + table" where
  "build_table cols rs =
     (case rs of
        [] \<Rightarrow> Inr \<lparr>columns = cols, rows = []\<rparr>
      | first_row # later \<Rightarrow>
          (let width = max (length cols) (length first_row);
               leading_cols = width - length cols
           in if list_ex (\<lambda>r. width < length r) later then Inl ParserError
              else Inr \<lparr>columns = cols,
                        rows = map (\<lambda>r. drop leading_cols (pad_row width r)) rs\<rparr>))"

text \<open>
  \<^verbatim>\<open>pd.read_csv(buffer, sep='\t', header=...)\<close>. Blank lines are skipped. Text with no
  line left raises \<^verbatim>\<open>EmptyDataError\<close> (\<^verbatim>\<open>No columns to parse from file\<close>) for either
  value of \<^verbatim>\<open>header\<close>. With \<^verbatim>\<open>header='infer'\<close> (the default) the first line names the
  columns; with \<^verbatim>\<open>header=None\<close> every line is data and the first one gives the width.
\<close>

definition read_csv :: "header_arg \<Rightarrow> string \<Rightarrow> error + table" where
  "read_csv header s =
     (case nonblank_lines s of
        [] \<Rightarrow> Inl EmptyDataError
      | first # rest \<Rightarrow>
          (case header of
             Infer \<Rightarrow> build_table (map Name (header_names (tab_fields first))) (map tab_fields rest)
           | NoHeader \<Rightarrow>
               build_table (map Pos [0..<length (tab_fields first)]) (map tab_fields (first # rest))))"

text \<open>\<^verbatim>\<open>pd.read_csv(path, sep='\t')\<close>: the file is opened and read, the header inferred.\<close>

definition read_csv_path :: "string \<Rightarrow> node \<Rightarrow> error + table" where
  "read_csv_path path fs =
     (case read_file fs path of Inl e \<Rightarrow> Inl e | Inr s \<Rightarrow> read_csv Infer s)"

text \<open>
  \<^verbatim>\<open>df.to_csv(path, sep='\t', index=False)\<close>: the line of the column labels, then one
  line for each row.
\<close>

definition csv_text :: "table \<Rightarrow> string" where
  "csv_text df =
     concat (map (\<lambda>r. join_with TAB r @ [NL]) (map show_label (columns df) # rows df))"

definition to_csv :: "table \<Rightarrow> string \<Rightarrow> node \<Rightarrow> error + node" where
  "to_csv df path fs = write_file path (csv_text df) fs"

text \<open>
  \<^verbatim>\<open>df.drop(columns=labels, errors=...)\<close>: the columns with one of the labels are taken
  out, cells and all. A label that is no column raises \<^verbatim>\<open>KeyError\<close> under
  \<^verbatim>\<open>errors='raise'\<close> and is passed over under \<^verbatim>\<open>errors='ignore'\<close>.
\<close>

datatype errors_arg = ErrorsRaise | ErrorsIgnore

definition df_drop :: "label list \<Rightarrow> errors_arg \<Rightarrow> table \<Rightarrow> error + table" where
  "df_drop labels errors df =
     (if errors = ErrorsRaise \<and> list_ex (\<lambda>l. l \<notin> set (columns df)) labels then Inl KeyError
      else Inr \<lparr>columns = filter (\<lambda>c. c \<notin> set labels) (columns df),
                rows = map (\<lambda>r. map snd (filter (\<lambda>(c, v). c \<notin> set labels) (zip (columns df) r)))
                         (rows df)\<rparr>)"

text \<open>A \<^verbatim>\<open>dict\<close> in insertion order: assigning to a key that is there keeps its place.\<close>

fun dict_set :: "'k \<Rightarrow> 'v \<Rightarrow> ('k \<times> 'v) list \<Rightarrow> ('k \<times> 'v) list" where
  "dict_set k v [] = [(k, v)]"
| "dict_set k v ((k', v') # d) =
     (if k' = k then (k, v) # d else (k', v') # dict_set k v d)"

section \<open>SectionParser: \<^verbatim>\<open>ExtractAndProcessFiles.process_file\<close>\<close>

text \<open>
  \<^verbatim>\<open>open(file_path)\<close> reads text with universal newlines (\<open>universal_newlines\<close>), and
  \<^verbatim>\<open>readlines\<close> cuts after every newline and keeps it. The decoding of the bytes of
  the file into text is not modelled: a file holds its text.
\<close>

fun readlines :: "string \<Rightarrow> string list" where
  "readlines [] = []"
| "readlines (c # cs) =
     (if c = NL then [NL] # readlines cs
      else (case readlines cs of [] \<Rightarrow> [[c]] | l # ls \<Rightarrow> (c # l) # ls))"

text \<open>
  The state of the loop over the lines: \<^verbatim>\<open>write_key\<close> (\<^verbatim>\<open>None\<close> at first), the text in
  the buffer \<^verbatim>\<open>fio\<close>, and the dictionary \<^verbatim>\<open>dfs\<close>. Python's \<^verbatim>\<open>if write_key:\<close> holds for a
  string that is not empty.
\<close>

record parser_state =
  write_key :: "string option"
  fio :: string
  dfs :: "(string \<times> table) list"

definition truthy :: "string option \<Rightarrow> bool" where
  "truthy k = (case k of None \<Rightarrow> False | Some s \<Rightarrow> s \<noteq> [])"

text \<open>\<^verbatim>\<open>dfs[key] = pd.read_csv(fio, sep='\t', header=header)\<close>, the buffer read from its start.\<close>

definition assign_table ::
  "header_arg \<Rightarrow> string \<Rightarrow> string \<Rightarrow> (string \<times> table) list \<Rightarrow> error + (string \<times> table) list" where
  "assign_table header key buf d =
     (case read_csv header buf of Inl e \<Rightarrow> Inl e | Inr df \<Rightarrow> Inr (dict_set key df d))"

text \<open>The body of the loop, lines 93 to 104.\<close>

definition process_line :: "parser_state \<Rightarrow> string \<Rightarrow> error + parser_state" where
  "process_line st line =
     (if startswith line ''[''
      then (case (case write_key st of
                    None \<Rightarrow> Inr (dfs st)
                  | Some key \<Rightarrow>
                      if key = [] then Inr (dfs st)
                      else assign_table (if key = ''Heading'' then NoHeader else Infer)
                             key (fio st) (dfs st)) of
              Inl e \<Rightarrow> Inl e
            | Inr d \<Rightarrow> Inr \<lparr>write_key = Some (strip (''[]'' @ [NL]) line), fio = [], dfs = d\<rparr>)
      else if truthy (write_key st) then Inr (st\<lparr>fio := fio st @ line\<rparr>)
      else Inr st)"

fun process_lines :: "parser_state \<Rightarrow> string list \<Rightarrow> error + parser_state" where
  "process_lines st [] = Inr st"
| "process_lines st (line # rest) =
     (case process_line st line of Inl e \<Rightarrow> Inl e | Inr st' \<Rightarrow> process_lines st' rest)"

text \<open>After the loop, lines 106 to 108: the last key, read with the default header.\<close>

definition finish :: "parser_state \<Rightarrow> error + (string \<times> table) list" where
  "finish st =
     (case write_key st of
        None \<Rightarrow> Inr (dfs st)
      | Some key \<Rightarrow> if key = [] then Inr (dfs st) else assign_table Infer key (fio st) (dfs st))"

definition initial_state :: parser_state where
  "initial_state = \<lparr>write_key = None, fio = [], dfs = []\<rparr>"

definition parse_sections :: "string list \<Rightarrow> error + (string \<times> table) list" where
  "parse_sections ls =
     (case process_lines initial_state ls of Inl e \<Rightarrow> Inl e | Inr st \<Rightarrow> finish st)"

text \<open>The loop over \<^verbatim>\<open>dfs.items()\<close>, lines 111 to 116: one file for each key.\<close>

definition table_file_name :: "string \<Rightarrow> string \<Rightarrow> string" where
  "table_file_name file_path key =
     fst (os_path_splitext (os_path_basename file_path)) @ ''_'' @ key @ ''.tsv''"

definition table_path :: "string \<Rightarrow> string \<Rightarrow> string" where
  "table_path file_path key =
     (let output_file_name = table_file_name file_path key
      in os_path_join (os_path_dirname file_path) output_file_name)"

fun save_tables :: "string \<Rightarrow> (string \<times> table) list \<Rightarrow> node \<Rightarrow> outcome \<times> node" where
  "save_tables file_path [] fs = (Done, fs)"
| "save_tables file_path ((key, df) # rest) fs =
     (case to_csv df (table_path file_path key) fs of
        Inl e \<Rightarrow> (Raised e, fs)
      | Inr fs' \<Rightarrow> save_tables file_path rest fs')"

definition process_file :: "string \<Rightarrow> node \<Rightarrow> outcome \<times> node" where
  "process_file file_path fs =
     (case read_file fs file_path of
        Inl e \<Rightarrow> (Raised e, fs)
      | Inr s \<Rightarrow>
          (case parse_sections (readlines (universal_newlines s)) of
             Inl e \<Rightarrow> (Raised e, fs)
           | Inr d \<Rightarrow> save_tables file_path d fs))"

section \<open>ArchiveExtractor: \<^verbatim>\<open>ExtractAndProcessFiles.run\<close>\<close>

text \<open>
  What \<^verbatim>\<open>tarfile\<close> and \<^verbatim>\<open>gzip\<close> decode is not part of the repository: \<open>untar\<close> gives the
  members of an archive file and \<open>gunzip\<close> the text of a compressed member, \<open>None\<close>
  when the bytes are malformed. Both are parameters of the task.
\<close>

record member =
  member_name :: string
  member_isfile :: bool
  member_data :: string

fun extract_members ::
  "(string \<Rightarrow> string option) \<Rightarrow> string \<Rightarrow> member list \<Rightarrow> node \<Rightarrow> outcome \<times> node" where
  "extract_members gunzip output_dir [] fs = (Done, fs)"
| "extract_members gunzip output_dir (m # ms) fs =
     (if member_isfile m \<and> endswith (member_name m) ''.txt.gz''
      then (let name = fst (os_path_splitext (member_name m));
                extraction_dir = os_path_join output_dir name
            in case os_makedirs extraction_dir fs of
                 Inl (e, fs0) \<Rightarrow> (Raised e, fs0)
               | Inr fs1 \<Rightarrow>
                   (case gunzip (member_data m) of
                      None \<Rightarrow> (Raised BadGzipFile, fs1)
                    | Some file_content \<Rightarrow>
                        (let output_file_path = os_path_join extraction_dir name
                         in case write_file output_file_path file_content fs1 of
                              Inl e \<Rightarrow> (Raised e, fs1)
                            | Inr fs2 \<Rightarrow>
                                (case process_file output_file_path fs2 of
                                   (Raised e, fs3) \<Rightarrow> (Raised e, fs3)
                                 | (Done, fs3) \<Rightarrow> extract_members gunzip output_dir ms fs3))))
      else extract_members gunzip output_dir ms fs)"

definition ExtractAndProcessFiles_run ::
  "(string \<Rightarrow> member list option) \<Rightarrow> (string \<Rightarrow> string option) \<Rightarrow>
   string \<Rightarrow> string \<Rightarrow> string \<Rightarrow> node \<Rightarrow> outcome \<times> node" where
  "ExtractAndProcessFiles_run untar gunzip dataset_id download_dir output_dir fs =
     (case os_makedirs output_dir fs of
        Inl (e, fs0) \<Rightarrow> (Raised e, fs0)
      | Inr fs1 \<Rightarrow>
          (let tar_path = output_target (DownloadDataset dataset_id download_dir)
           in if \<not> os_path_isfile fs1 tar_path
              then (Raised (FileNotFoundError (''TAR file does not exist: '' @ tar_path)), fs1)
              else (case read_file fs1 tar_path of
                      Inl e \<Rightarrow> (Raised e, fs1)
                    | Inr bytes \<Rightarrow>
                        (case untar bytes of
                           None \<Rightarrow> (Raised ReadError, fs1)
                         | Some members \<Rightarrow> extract_members gunzip output_dir members fs1))))"

section \<open>ProbesTrimmer: \<^verbatim>\<open>TrimProbesTable.run\<close>\<close>

definition columns_to_remove :: "string list" where
  "columns_to_remove =
     [''Definition'', ''Ontology_Component'', ''Ontology_Process'', ''Ontology_Function'',
      ''Synonyms'', ''Obsolete_Probe_Id'', ''Probe_Sequence'']"

text \<open>
  The search of lines 138 to 141: of every triple of the walk, the files whose name
  ends \<^verbatim>\<open>_Probes.tsv\<close>, joined to the root of the triple.
\<close>

definition probes_in :: "(string \<times> string list \<times> string list) list \<Rightarrow> string list" where
  "probes_in triples =
     concat (map (\<lambda>(root, dirs, files).
                    map (os_path_join root) (filter (\<lambda>file. endswith file ''_Probes.tsv'') files))
               triples)"

definition find_probes_files :: "node \<Rightarrow> string \<Rightarrow> error + string list" where
  "find_probes_files fs processed_data_dir =
     (case os_walk fs processed_data_dir of
        Inl e \<Rightarrow> Inl e
      | Inr triples \<Rightarrow> Inr (probes_in triples))"

definition trimmed_path :: "string \<Rightarrow> string \<Rightarrow> string" where
  "trimmed_path output_path probes_file_path =
     os_path_join (os_path_dirname output_path)
       (replace ''_Probes.tsv'' ''_trimmed_Probes.tsv'' (os_path_basename probes_file_path))"

text \<open>
  The loop of lines 159 to 174. Nothing in it catches an exception: the first file
  that fails to load or to be written ends the run.
\<close>

fun trim_files :: "string \<Rightarrow> string list \<Rightarrow> node \<Rightarrow> outcome \<times> node" where
  "trim_files output_path [] fs = (Done, fs)"
| "trim_files output_path (probes_file_path # rest) fs =
     (case read_csv_path probes_file_path fs of
        Inl e \<Rightarrow> (Raised e, fs)
      | Inr probes_df \<Rightarrow>
          (case df_drop (map Name columns_to_remove) ErrorsIgnore probes_df of
             Inl e \<Rightarrow> (Raised e, fs)
           | Inr trimmed_probes_df \<Rightarrow>
               (case to_csv trimmed_probes_df (trimmed_path output_path probes_file_path) fs of
                  Inl e \<Rightarrow> (Raised e, fs)
                | Inr fs' \<Rightarrow> trim_files output_path rest fs')))"

text \<open>
  \<^verbatim>\<open>with self.output().open('w') as f: f.write(s)\<close> on a \<^verbatim>\<open>luigi.LocalTarget\<close>: the parent
  directory is made if it can be (an \<^verbatim>\<open>OSError\<close> there is passed over, another
  exception is not) and the file is put in place with its text.
\<close>

definition local_target_write :: "string \<Rightarrow> string \<Rightarrow> node \<Rightarrow> outcome \<times> node" where
  "local_target_write path s fs =
     (let parentfolder = os_path_dirname path
      in case (if parentfolder = [] then Inr fs
               else (case os_makedirs parentfolder fs of
                       Inl (e, fs0) \<Rightarrow>
                         (case e of OSError c p \<Rightarrow> Inr fs0 | _ \<Rightarrow> Inl (e, fs0))
                     | Inr fs' \<Rightarrow> Inr fs')) of
           Inl (e, fs0) \<Rightarrow> (Raised e, fs0)
         | Inr fs1 \<Rightarrow>
             (case write_file path s fs1 of
                Inl e \<Rightarrow> (Raised e, fs1)
              | Inr fs2 \<Rightarrow> (Done, fs2)))"

definition marker_text :: string where
  "marker_text = ''Trimmed Probes processing completed.'' @ [NL]"

definition TrimProbesTable_run ::
  "string \<Rightarrow> string \<Rightarrow> string \<Rightarrow> string \<Rightarrow> node \<Rightarrow> outcome \<times> node" where
  "TrimProbesTable_run dataset_id download_dir processed_data_dir output_dir fs =
     (let self = TrimProbesTable dataset_id download_dir processed_data_dir output_dir
      in case os_makedirs output_dir fs of
           Inl (e, fs0) \<Rightarrow> (Raised e, fs0)
         | Inr fs1 \<Rightarrow>
             (case find_probes_files fs1 processed_data_dir of
                Inl e \<Rightarrow> (Raised e, fs1)
              | Inr probes_files \<Rightarrow>
                  if probes_files = []
                  then (Raised (FileNotFoundError
                          (''No Probes files found in the directory: '' @ processed_data_dir)), fs1)
                  else (case trim_files (output_target self) probes_files fs1 of
                          (Raised e, fs2) \<Rightarrow> (Raised e, fs2)
                        | (Done, fs2) \<Rightarrow>
                            local_target_write (output_target self) marker_text fs2)))"

section \<open>OriginalDataCleaner: \<^verbatim>\<open>DeleteOriginalData.run\<close>\<close>

text \<open>What the task logs, as far as it tells how a deletion went.\<close>

datatype log_record =
    FoundOriginalFiles "string list"
  | NoOriginalFiles
  | FileDeleted string
  | ErrorDeletingFile string os_error
  | DirectoryDeleted string
  | DirectoryNotDeleted string os_error
  | MainDirectoryDeleted string
  | MainDirectoryNotDeleted string os_error

text \<open>The listing of lines 198 to 204.\<close>

definition items_in :: "(string \<times> string list \<times> string list) list \<Rightarrow> string list" where
  "items_in triples =
     concat (map (\<lambda>(root, dirs, files).
                    map (os_path_join root) dirs @ map (os_path_join root) files)
               triples)"

definition original_items_of :: "node \<Rightarrow> string \<Rightarrow> error + string list" where
  "original_items_of fs processed_data_dir =
     (case os_walk fs processed_data_dir of
        Inl e \<Rightarrow> Inl e
      | Inr triples \<Rightarrow> Inr (items_in triples))"

text \<open>Lines 215 to 222: \<^verbatim>\<open>os.remove\<close> in \<^verbatim>\<open>try\<close>, every exception caught and logged.\<close>

fun remove_files :: "string list \<Rightarrow> node \<times> log_record list \<Rightarrow> node \<times> log_record list" where
  "remove_files [] st = st"
| "remove_files (file # rest) (fs, log) =
     (if os_path_isfile fs file
      then (case os_remove file fs of
              Inl e \<Rightarrow> remove_files rest (fs, log @ [ErrorDeletingFile file e])
            | Inr fs' \<Rightarrow> remove_files rest (fs', log @ [FileDeleted file]))
      else remove_files rest (fs, log))"

text \<open>
  Lines 225 to 233: \<^verbatim>\<open>os.rmdir\<close> in \<^verbatim>\<open>try\<close> for the directories of every triple of the
  bottom-up walk, \<^verbatim>\<open>OSError\<close> caught and logged. The walk lists a directory before it
  descends into it, and the loop removes only directories below one the walk has
  left, so the triples are those of the tree as it stands when the loop starts.
\<close>

fun rmdir_each :: "string \<Rightarrow> string list \<Rightarrow> node \<times> log_record list \<Rightarrow> node \<times> log_record list" where
  "rmdir_each root [] st = st"
| "rmdir_each root (d # rest) (fs, log) =
     (let dir_path = os_path_join root d
      in case os_rmdir dir_path fs of
           Inl e \<Rightarrow> rmdir_each root rest (fs, log @ [DirectoryNotDeleted dir_path e])
         | Inr fs' \<Rightarrow> rmdir_each root rest (fs', log @ [DirectoryDeleted dir_path]))"

fun remove_dirs ::
  "(string \<times> string list \<times> string list) list \<Rightarrow> node \<times> log_record list \<Rightarrow> node \<times> log_record list" where
  "remove_dirs [] st = st"
| "remove_dirs ((root, dirs, files) # rest) st = remove_dirs rest (rmdir_each root dirs st)"

definition DeleteOriginalData_run ::
  "string \<Rightarrow> string \<Rightarrow> string \<Rightarrow> string \<Rightarrow> node \<Rightarrow> outcome \<times> node \<times> log_record list" where
  "DeleteOriginalData_run dataset_id download_dir processed_data_dir output_dir fs =
     (case original_items_of fs processed_data_dir of
        Inl e \<Rightarrow> (Raised e, fs, [])
      | Inr original_items \<Rightarrow>
          (let log0 = [FoundOriginalFiles original_items]
           in if original_items = [] then (Done, fs, log0 @ [NoOriginalFiles])
              else (let (fs1, log1) = remove_files original_items (fs, log0)
                    in case os_walk_bottomup fs1 processed_data_dir of
                         Inl e \<Rightarrow> (Raised e, fs1, log1)
                       | Inr triples \<Rightarrow>
                           (let (fs2, log2) = remove_dirs triples (fs1, log1)
                            in case os_rmdir processed_data_dir fs2 of
                                 Inl e \<Rightarrow>
                                   (Done, fs2,
                                    log2 @ [MainDirectoryNotDeleted processed_data_dir e])
                               | Inr fs3 \<Rightarrow>
                                   (Done, fs3,
                                    log2 @ [MainDirectoryDeleted processed_data_dir])))))"

section \<open>PipelineOrchestrator: completeness of a stage\<close>

text \<open>
  \<^verbatim>\<open>luigi.Task.complete\<close>: the output target exists (\<^verbatim>\<open>os.path.exists\<close>). A stage that is
  complete when the scheduler checks it is skipped; its \<^verbatim>\<open>run\<close> is not called.
\<close>

definition complete :: "task \<Rightarrow> node \<Rightarrow> bool" where
  "complete t fs = os_path_exists fs (output_target t)"

datatype stage_check = Skipped | Running

definition check_stage :: "task \<Rightarrow> node \<Rightarrow> stage_check" where
  "check_stage t fs = (if complete t fs then Skipped else Running)"

section \<open>Facts about the file system\<close>

text \<open>
  \<open>mkdirs\<close> adds directories and nothing else: the regular files are the same before
  and after, the path it was asked for is a directory afterwards, and nothing below
  that path appears or goes away.
\<close>

lemma lookup_fresh_dirs_no_file: "lookup (fresh_dirs cs) q \<noteq> Some (File l s)"
  by (induction cs arbitrary: q) (case_tac q; simp)+

lemma lookup_fresh_dirs_self: "\<exists>d. lookup (fresh_dirs cs) cs = Some (Dir d)"
  by (induction cs) auto

lemma lookup_fresh_dirs_below: "lookup (fresh_dirs cs) (cs @ c # q) = None"
  by (induction cs) auto

lemma mkdirs_files:
  "mkdirs cs n = Inr n' \<Longrightarrow> (lookup n' q = Some (File l s)) = (lookup n q = Some (File l s))"
  "mkdirs_in c cs es = Inr es' \<Longrightarrow>
     (lookup_in es' c' q = Some (File l s)) = (lookup_in es c' q = Some (File l s))"
proof (induction cs n and c cs es arbitrary: n' q and es' c' q rule: mkdirs_mkdirs_in.induct)
  case (4 c cs es)
  then show ?case by (cases q) (auto split: sum.splits)
next
  case (5 c cs)
  then show ?case by (auto simp: lookup_fresh_dirs_no_file split: if_splits)
next
  case (6 c cs k n es)
  then show ?case by (auto split: sum.splits if_splits)
qed auto

lemma mkdirs_isdir:
  "mkdirs cs n = Inr n' \<Longrightarrow> \<exists>d. lookup n' cs = Some (Dir d)"
  "mkdirs_in c cs es = Inr es' \<Longrightarrow> \<exists>d. lookup_in es' c cs = Some (Dir d)"
proof (induction cs n and c cs es arbitrary: n' and es' rule: mkdirs_mkdirs_in.induct)
  case (5 c cs)
  then show ?case using lookup_fresh_dirs_self [of cs] by auto
next
  case (6 c cs k n es)
  then show ?case by (auto split: sum.splits if_splits)
qed (auto split: sum.splits)

lemma mkdirs_below:
  "mkdirs cs n = Inr n' \<Longrightarrow> lookup n' (cs @ c' # q) = lookup n (cs @ c' # q)"
  "mkdirs_in c cs es = Inr es' \<Longrightarrow>
     lookup_in es' c (cs @ c' # q) = lookup_in es c (cs @ c' # q)"
proof (induction cs n and c cs es arbitrary: n' and es' rule: mkdirs_mkdirs_in.induct)
  case (5 c cs)
  then show ?case by (auto simp: lookup_fresh_dirs_below)
next
  case (6 c cs k n es)
  then show ?case by (auto split: sum.splits if_splits)
qed (auto split: sum.splits)

lemma mkdirs_existing:
  "lookup n cs = Some (Dir d) \<Longrightarrow> mkdirs cs n = Inr n"
  "lookup_in es c cs = Some (Dir d) \<Longrightarrow> mkdirs_in c cs es = Inr es"
  by (induction cs n and c cs es rule: mkdirs_mkdirs_in.induct) (auto split: if_splits)

lemma os_makedirs_Inr:
  "os_makedirs p fs = Inr fs1 \<Longrightarrow> \<not> embedded_null p \<and> p \<noteq> [] \<and> mkdirs (parts p) fs = Inr fs1"
  by (auto simp: os_makedirs_def Let_def split: if_splits sum.splits)

lemma os_makedirs_files:
  "os_makedirs p fs = Inr fs1 \<Longrightarrow> (stat fs1 q = Some (File l s)) = (stat fs q = Some (File l s))"
  by (auto simp: stat_def mkdirs_files dest!: os_makedirs_Inr)

text \<open>A call of \<open>os_makedirs\<close> that fails has made directories at most.\<close>

lemma os_makedirs_fails_files:
  "os_makedirs p fs = Inl (e, fs0) \<Longrightarrow>
     (stat fs0 q = Some (File l s)) = (stat fs q = Some (File l s))"
  by (auto simp: os_makedirs_def Let_def stat_def mkdirs_files split: if_splits sum.splits)

lemma os_makedirs_isdir: "os_makedirs p fs = Inr fs1 \<Longrightarrow> os_path_isdir fs1 p"
  using mkdirs_isdir(1) [of "parts p" fs fs1]
  by (auto simp: os_path_isdir_def stat_def dest!: os_makedirs_Inr)

lemma os_makedirs_isfile:
  assumes "os_makedirs p fs = Inr fs1"
  shows "os_path_isfile fs1 q = os_path_isfile fs q"
proof -
  have "(\<exists>l s. stat fs1 q = Some (File l s)) = (\<exists>l s. stat fs q = Some (File l s))"
    using os_makedirs_files [OF assms] by blast
  then show ?thesis
    by (auto simp: os_path_isfile_def split: option.splits node.splits)
qed

text \<open>
  A system call on one entry leaves alone every path that neither leads to the entry
  nor lies below it; the directories on the way to the entry are directories
  afterwards; and creating an entry in an existing directory succeeds.
\<close>

lemma modify_other:
  "modify f cs n = Inr n' \<Longrightarrow> \<not> prefix cs q \<Longrightarrow> \<not> prefix q cs \<Longrightarrow> lookup n' q = lookup n q"
  "modify_in f c cs es = Inr es' \<Longrightarrow> \<not> prefix (c # cs) (c' # q) \<Longrightarrow>
     \<not> prefix (c' # q) (c # cs) \<Longrightarrow> lookup_in es' c' q = lookup_in es c' q"
proof (induction f cs n and f c cs es arbitrary: n' q and es' c' q rule: modify_modify_in.induct)
  case (3 f c cs es)
  then show ?case by (cases q) (auto split: sum.splits)
next
  case (4 f c cs)
  then show ?case by (auto split: sum.splits option.splits if_splits)
next
  case (5 f c cs k n es)
  then show ?case by (auto split: sum.splits option.splits if_splits)
qed auto

lemma modify_result:
  assumes "\<And>cur r. f cur = Inr r \<Longrightarrow> \<exists>l. r = Some (File l s)"
  shows "modify f cs n = Inr n' \<Longrightarrow> \<exists>l. lookup n' cs = Some (File l s)"
    and "modify_in f c cs es = Inr es' \<Longrightarrow> \<exists>l. lookup_in es' c cs = Some (File l s)"
  using assms
proof (induction f cs n and f c cs es arbitrary: n' and es' rule: modify_modify_in.induct)
  case (1 f n)
  then show ?case by (fastforce split: sum.splits option.splits)
next
  case (3 f c cs es)
  then show ?case by (auto split: sum.splits)
next
  case (4 f c cs)
  then show ?case by (fastforce split: sum.splits option.splits if_splits)
next
  case (5 f c cs k n es)
  then show ?case by (fastforce split: sum.splits option.splits if_splits)
qed auto

lemma modify_keeps_ancestor:
  "modify f cs n = Inr n' \<Longrightarrow> strict_prefix q cs \<Longrightarrow> \<exists>d. lookup n' q = Some (Dir d)"
  "modify_in f c cs es = Inr es' \<Longrightarrow> strict_prefix q cs \<Longrightarrow>
     \<exists>d. lookup_in es' c q = Some (Dir d)"
proof (induction f cs n and f c cs es arbitrary: n' q and es' q rule: modify_modify_in.induct)
  case (3 f c cs es)
  then show ?case by (cases q) (auto split: sum.splits)
next
  case (4 f c cs)
  then show ?case by (auto split: sum.splits option.splits if_splits)
next
  case (5 f c cs k n es)
  then show ?case by (auto split: sum.splits option.splits if_splits)
qed auto

lemma modify_create:
  "cs \<noteq> [] \<Longrightarrow> \<exists>d. lookup n (butlast cs) = Some (Dir d) \<Longrightarrow> lookup n cs = None \<Longrightarrow>
     f None = Inr (Some x) \<Longrightarrow> \<exists>n'. modify f cs n = Inr n'"
  "\<exists>d. lookup (Dir es) (butlast (c # cs)) = Some (Dir d) \<Longrightarrow> lookup_in es c cs = None \<Longrightarrow>
     f None = Inr (Some x) \<Longrightarrow> \<exists>es'. modify_in f c cs es = Inr es'"
proof (induction f cs n and f c cs es rule: modify_modify_in.induct)
  case (3 f c cs es)
  then show ?case by (auto split: sum.splits)
next
  case (4 f c cs)
  then show ?case by (auto split: sum.splits option.splits if_splits)
next
  case (5 f c cs k n es)
  then show ?case by (auto split: sum.splits option.splits if_splits)
qed (auto split: if_splits)

lemma write_file_Inr:
  "write_file p s fs = Inr fs' \<Longrightarrow>
     \<not> embedded_null p \<and> p \<noteq> []
     \<and> modify (\<lambda>cur. case cur of None \<Rightarrow> Inr (Some (File False s))
                   | Some (File l old) \<Rightarrow> if l then Inl EPERM else Inr (Some (File l s))
                   | Some (Dir es) \<Rightarrow> Inl EISDIR) (parts p) fs = Inr fs'"
  by (auto simp: write_file_def split: if_splits sum.splits)

lemma write_file_read:
  assumes "write_file p s fs = Inr fs'"
  shows "read_file fs' p = Inr s"
proof -
  note w = write_file_Inr [OF assms]
  have "\<exists>l. lookup fs' (parts p) = Some (File l s)"
    by (rule modify_result(1) [where s = s and n = fs and
          f = "\<lambda>cur. case cur of None \<Rightarrow> Inr (Some (File False s))
                 | Some (File l old) \<Rightarrow> if l then Inl EPERM else Inr (Some (File l s))
                 | Some (Dir es) \<Rightarrow> Inl EISDIR"])
       (use w in \<open>auto split: option.splits node.splits if_splits\<close>)
  then show ?thesis using w by (auto simp: read_file_def stat_def)
qed

lemma write_file_other:
  assumes "write_file p s fs = Inr fs'" and "q \<noteq> []"
    and "\<not> prefix (parts p) (parts q)" and "\<not> prefix (parts q) (parts p)"
  shows "stat fs' q = stat fs q"
  using assms(2-) write_file_Inr [OF assms(1)] modify_other(1) [of _ "parts p" fs fs' "parts q"]
  by (auto simp: stat_def)

section \<open>Facts about strings and paths\<close>

lemma startswith_prefix: "startswith s p = prefix p s"
proof
  assume "startswith s p"
  then have "s = p @ drop (length p) s"
    by (metis append_take_drop_id startswith_def)
  then show "prefix p s" by (metis prefixI)
next
  assume "prefix p s"
  then obtain zs where "s = p @ zs" by (auto simp: prefix_def)
  then show "startswith s p" by (simp add: startswith_def)
qed

lemma endswith_suffix: "endswith s p = suffix p s"
proof
  assume "endswith s p"
  then have "s = take (length s - length p) s @ p"
    by (metis append_take_drop_id endswith_def)
  then show "suffix p s" by (metis suffixI)
next
  assume "suffix p s"
  then obtain zs where "s = zs @ p" by (auto simp: suffix_def)
  then show "endswith s p" by (simp add: endswith_def)
qed

lemma endswith_slash: "endswith a ''/'' = (a \<noteq> [] \<and> last a = CHR ''/'')"
  by (cases a rule: rev_cases) (auto simp: endswith_def)

lemma split_on_nonempty: "split_on c s \<noteq> []"
  by (induction s) (auto split: list.splits)

lemma split_on_append: "split_on c (a @ c # b) = split_on c a @ split_on c b"
proof (induction a)
  case Nil
  then show ?case by simp
next
  case (Cons x a)
  then show ?case
    using split_on_nonempty [of c a] by (cases "split_on c a") auto
qed

lemma split_on_no_sep: "c \<notin> set s \<Longrightarrow> split_on c s = [s]"
  by (induction s) auto

lemma parts_append_slash: "parts (a @ CHR ''/'' # b) = parts a @ parts b"
  by (simp add: parts_def split_on_append)

lemma parts_Nil: "parts [] = []"
  by (simp add: parts_def)

lemma parts_snoc_slash: "parts (x @ ''/'') = parts x"
  using parts_append_slash [of x "[]"] by (simp add: parts_Nil)

lemma parts_name:
  "name \<noteq> [] \<Longrightarrow> name \<noteq> ''.'' \<Longrightarrow> CHR ''/'' \<notin> set name \<Longrightarrow> parts name = [name]"
  by (simp add: parts_def split_on_no_sep)

lemma parts_join:
  assumes "\<not> startswith b ''/''"
  shows "parts (os_path_join a b) = parts a @ parts b"
proof (cases "a = [] \<or> endswith a ''/''")
  case True
  then show ?thesis
  proof
    assume "a = []"
    then show ?thesis using assms by (simp add: os_path_join_def parts_Nil)
  next
    assume "endswith a ''/''"
    then obtain a' where a: "a = a' @ ''/''"
      by (cases a rule: rev_cases) (auto simp: endswith_slash)
    have "parts a = parts a'"
      using parts_append_slash [of a' "[]"] by (simp add: a parts_Nil)
    moreover have "parts (a @ b) = parts a' @ parts b"
      using parts_append_slash [of a' b] by (simp add: a)
    ultimately show ?thesis
      using assms \<open>endswith a ''/''\<close> by (simp add: os_path_join_def)
  qed
next
  case False
  then show ?thesis
    using assms parts_append_slash [of a b] by (simp add: os_path_join_def)
qed

lemma parts_join_name:
  assumes "name \<noteq> []" "name \<noteq> ''.''" "CHR ''/'' \<notin> set name"
  shows "parts (os_path_join a name) = parts a @ [name]"
proof -
  have "\<not> startswith name ''/''"
    using assms by (cases name) (auto simp: startswith_def)
  then show ?thesis
    using assms by (simp add: parts_join parts_name)
qed

lemma join_name_nonempty: "name \<noteq> [] \<Longrightarrow> os_path_join a name \<noteq> []"
  by (auto simp: os_path_join_def)

lemma join_suffix: "suffix b (os_path_join a b)"
  by (auto simp: os_path_join_def suffix_def)

lemma parts_rstrip: "parts (rev (dropWhile (\<lambda>c. c = CHR ''/'') (rev x))) = parts x"
proof (induction x rule: rev_induct)
  case Nil
  then show ?case by simp
next
  case (snoc c xs)
  then show ?case using parts_snoc_slash [of xs] by auto
qed

lemma parts_dirname_basename:
  "parts p = parts (os_path_dirname p) @ parts (os_path_basename p)"
proof -
  define hd' where "hd' = rev (dropWhile (\<lambda>c. c \<noteq> CHR ''/'') (rev p))"
  define b where "b = os_path_basename p"
  have "rev (dropWhile (\<lambda>c. c \<noteq> CHR ''/'') (rev p)) @ rev (takeWhile (\<lambda>c. c \<noteq> CHR ''/'') (rev p)) =
      rev (takeWhile (\<lambda>c. c \<noteq> CHR ''/'') (rev p) @ dropWhile (\<lambda>c. c \<noteq> CHR ''/'') (rev p))"
    by (simp only: rev_append)
  also have "\<dots> = p"
    by (simp only: takeWhile_dropWhile_id rev_rev_ident)
  finally have p: "p = hd' @ b"
    by (simp only: hd'_def b_def os_path_basename_def)
  have "os_path_dirname p =
      (if hd' \<noteq> [] \<and> list_ex (\<lambda>c. c \<noteq> CHR ''/'') hd'
       then rev (dropWhile (\<lambda>c. c = CHR ''/'') (rev hd')) else hd')"
    by (simp add: os_path_dirname_def hd'_def Let_def)
  then have d: "parts (os_path_dirname p) = parts hd'"
    using parts_rstrip [of hd'] by (cases "hd' \<noteq> [] \<and> list_ex (\<lambda>c. c \<noteq> CHR ''/'') hd'") simp_all
  have main: "parts p = parts hd' @ parts b"
  proof (cases "hd' = []")
    case True
    then have "p = b" using p by simp
    then show ?thesis using True by (simp add: parts_Nil)
  next
    case False
    have "dropWhile (\<lambda>c. c \<noteq> CHR ''/'') (rev p) \<noteq> []"
      using False by (simp add: hd'_def)
    then have "\<not> hd (dropWhile (\<lambda>c. c \<noteq> CHR ''/'') (rev p)) \<noteq> CHR ''/''"
      by (rule hd_dropWhile)
    then have "last hd' = CHR ''/''"
      using False by (simp add: hd'_def last_rev)
    then obtain h where h: "hd' = h @ ''/''"
      using False by (cases hd' rule: rev_cases) auto
    have "p = h @ CHR ''/'' # b"
      using p by (simp add: h)
    then have "parts p = parts h @ parts b"
      using parts_append_slash [of h b] by simp
    moreover have "parts hd' = parts h"
      by (simp add: h parts_snoc_slash)
    ultimately show ?thesis by simp
  qed
  show ?thesis
    using main d by (simp only: b_def)
qed

lemma basename_no_slash: "CHR ''/'' \<notin> set (os_path_basename p)"
  unfolding os_path_basename_def using set_takeWhileD by fastforce

lemma basename_suffix:
  assumes "suffix x p" and "CHR ''/'' \<notin> set x"
  shows "suffix x (os_path_basename p)"
proof -
  obtain y where p: "p = y @ x" using assms(1) by (auto simp: suffix_def)
  have "takeWhile (\<lambda>c. c \<noteq> CHR ''/'') (rev x @ rev y) =
          rev x @ takeWhile (\<lambda>c. c \<noteq> CHR ''/'') (rev y)"
    using assms(2) by (intro takeWhile_append2) auto
  then show ?thesis by (simp add: os_path_basename_def p suffix_def)
qed

lemma basename_join_name:
  assumes "CHR ''/'' \<notin> set name"
  shows "os_path_basename (os_path_join a name) = name"
proof -
  have ns: "\<not> startswith name ''/''"
    using assms by (cases name) (auto simp: startswith_def)
  have t: "takeWhile (\<lambda>c. c \<noteq> CHR ''/'') (rev name @ ys) =
             rev name @ takeWhile (\<lambda>c. c \<noteq> CHR ''/'') ys" for ys
    using assms by (intro takeWhile_append2) auto
  have t0: "takeWhile (\<lambda>c. c \<noteq> CHR ''/'') (rev name) = rev name"
    using t [of "[]"] by simp
  have b0: "os_path_basename name = name"
    unfolding os_path_basename_def by (simp only: t0 rev_rev_ident)
  show ?thesis
  proof (cases "a = []")
    case True
    then show ?thesis
      using ns b0 by (simp add: os_path_join_def)
  next
    case False
    show ?thesis
    proof (cases "endswith a ''/''")
      case True
      then obtain a' where a: "a = a' @ ''/''"
        by (cases a rule: rev_cases) (auto simp: endswith_slash)
      show ?thesis
        using ns True t [of "CHR ''/'' # rev a'"]
        by (simp add: os_path_join_def os_path_basename_def a)
    next
      case F: False
      show ?thesis
        using ns F False t [of "CHR ''/'' # rev a"]
        by (simp add: os_path_join_def os_path_basename_def)
    qed
  qed
qed

text \<open>
  \<open>replace\<close> puts in no character that is neither in the string nor in the new text,
  and where the old text occurs the new text occurs in the result.
\<close>

lemma replace_set: "set (replace old new s) \<subseteq> set s \<union> set new"
proof (induction old new s rule: replace.induct)
  case (1 old new s)
  show ?case
  proof (cases "s = [] \<or> old = []")
    case True
    then show ?thesis by (subst replace.simps) auto
  next
    case False
    show ?thesis
    proof (cases "startswith s old")
      case True
      have "set (drop (length old) s) \<subseteq> set s" by (rule set_drop_subset)
      with 1(1) [OF False True] False True show ?thesis
        by (subst replace.simps) auto
    next
      case F2: False
      have "set (tl s) \<subseteq> set s" using False by (cases s) auto
      moreover have "hd s \<in> set s" using False by (cases s) auto
      ultimately show ?thesis
        using 1(2) [OF False F2] False F2 by (subst replace.simps) auto
    qed
  qed
qed

lemma replace_sublist:
  "old \<noteq> [] \<Longrightarrow> sublist old s \<Longrightarrow> sublist new (replace old new s)"
proof (induction old new s rule: replace.induct)
  case (1 old new s)
  have ne: "s \<noteq> []" using 1(3,4) by auto
  show ?case
  proof (cases "startswith s old")
    case True
    then show ?thesis
      using ne 1(3) by (subst replace.simps) (simp add: sublist_append_rightI)
  next
    case False
    obtain x xs where s: "s = x # xs" using ne by (cases s) auto
    have "sublist old xs"
      using 1(4) False by (auto simp: s startswith_prefix sublist_Cons_right)
    then have "sublist new (replace old new xs)"
      using 1(2) ne False 1(3) by (simp add: s)
    then show ?thesis
      using ne False 1(3) by (subst replace.simps) (simp add: s sublist_Cons_right)
  qed
qed

lemma os_makedirs_child:
  assumes "os_makedirs p fs = Inr fs1"
    and "name \<noteq> []" "name \<noteq> ''.''" "CHR ''/'' \<notin> set name"
  shows "stat fs1 (os_path_join p name) = stat fs (os_path_join p name)"
  using assms(2-) os_makedirs_Inr [OF assms(1)] mkdirs_below(1) [of "parts p" fs fs1 name "[]"]
  by (auto simp: stat_def parts_join_name join_name_nonempty)

lemma dirname_set: "set (os_path_dirname p) \<subseteq> set p"
  by (auto simp: os_path_dirname_def Let_def dest!: set_dropWhileD)

lemma join_set: "set (os_path_join a b) \<subseteq> insert (CHR ''/'') (set a \<union> set b)"
  by (auto simp: os_path_join_def)

section \<open>Which exceptions the parser and the extraction raise\<close>

lemma read_csv_error: "read_csv h s = Inl e \<Longrightarrow> e = EmptyDataError \<or> e = ParserError"
  by (auto simp: read_csv_def build_table_def Let_def
      split: list.splits header_arg.splits if_splits)

lemma assign_table_error:
  "assign_table h k b d = Inl e \<Longrightarrow> e = EmptyDataError \<or> e = ParserError"
  by (auto simp: assign_table_def dest: read_csv_error split: sum.splits)

lemma process_line_error:
  "process_line st l = Inl e \<Longrightarrow> e = EmptyDataError \<or> e = ParserError"
  by (auto simp: process_line_def dest: assign_table_error
      split: if_splits sum.splits option.splits)

lemma process_lines_error:
  "process_lines st ls = Inl e \<Longrightarrow> e = EmptyDataError \<or> e = ParserError"
  by (induction ls arbitrary: st) (auto dest: process_line_error split: sum.splits)

lemma parse_sections_error:
  "parse_sections ls = Inl e \<Longrightarrow> e = EmptyDataError \<or> e = ParserError"
  by (auto simp: parse_sections_def finish_def
      dest: process_lines_error assign_table_error split: sum.splits option.splits if_splits)

lemma read_file_error:
  "read_file fs p = Inl e \<Longrightarrow> e = ValueError \<or> (\<exists>x. e = OSError x p)"
  by (auto simp: read_file_def split: if_splits option.splits node.splits)

lemma write_file_error:
  "write_file p s fs = Inl e \<Longrightarrow> e = ValueError \<or> (\<exists>x. e = OSError x p)"
  by (auto simp: write_file_def split: if_splits sum.splits)

lemma os_makedirs_error:
  "os_makedirs p fs = Inl (e, fs0) \<Longrightarrow> e = ValueError \<or> (\<exists>x q. e = OSError x q)"
  by (auto simp: os_makedirs_def Let_def split: if_splits sum.splits)

lemma save_tables_error:
  "save_tables fp d fs = (Raised e, fs') \<Longrightarrow> e = ValueError \<or> (\<exists>x p. e = OSError x p)"
proof (induction d arbitrary: fs)
  case Nil
  then show ?case by simp
next
  case (Cons a d)
  obtain k v where a: "a = (k, v)" by (cases a)
  show ?case
  proof (cases "to_csv v (table_path fp k) fs")
    case (Inl e')
    then have "e' = e" using Cons.prems by (simp add: a)
    then show ?thesis using Inl write_file_error [of "table_path fp k" "csv_text v" fs e]
      by (auto simp: to_csv_def)
  next
    case (Inr fs1)
    then show ?thesis using Cons by (simp add: a)
  qed
qed

lemma process_file_error:
  "process_file fp fs = (Raised e, fs') \<Longrightarrow> e \<noteq> FileNotFoundError m"
  by (auto simp: process_file_def
      dest: parse_sections_error save_tables_error read_file_error split: sum.splits)

lemma extract_members_error:
  "extract_members gunzip output_dir ms fs = (Raised e, fs') \<Longrightarrow> e \<noteq> FileNotFoundError m"
proof (induction ms arbitrary: fs)
  case Nil
  then show ?case by simp
next
  case (Cons a ms)
  then show ?case
    by (auto simp: Let_def dest: process_file_error os_makedirs_error write_file_error
        split: if_splits sum.splits option.splits prod.splits outcome.splits)
qed

section \<open>Dependencies are built from the dataset identifier alone\<close>

text \<open>
  Claim C10. Whatever directories \<^verbatim>\<open>TrimProbesTable\<close> and \<^verbatim>\<open>DeleteOriginalData\<close> are
  configured with, the task each of them requires is constructed from the dataset
  identifier only, so every task upstream of them has the default download, processed
  and trimmed directories.
\<close>

theorem requires_pass_dataset_id_only:
  "requires (TrimProbesTable dataset_id download_dir processed_data_dir output_dir) =
     Some (ExtractAndProcessFiles dataset_id ''data'' ''processed_data'')
   \<and> requires (DeleteOriginalData dataset_id download_dir processed_data_dir output_dir) =
     Some (TrimProbesTable dataset_id ''data'' ''processed_data'' ''trimmed_probes'')
   \<and> upstream (TrimProbesTable dataset_id download_dir processed_data_dir output_dir) =
     [ExtractAndProcessFiles dataset_id ''data'' ''processed_data'',
      DownloadDataset dataset_id ''data'']
   \<and> upstream (DeleteOriginalData dataset_id download_dir processed_data_dir output_dir) =
     [TrimProbesTable dataset_id ''data'' ''processed_data'' ''trimmed_probes'',
      ExtractAndProcessFiles dataset_id ''data'' ''processed_data'',
      DownloadDataset dataset_id ''data'']"
  by (simp add: default_download_dir_def default_processed_dir_def default_trimmed_dir_def)

section \<open>ArchiveExtractor and a missing archive\<close>

text \<open>
  Claim C5, as stated, fails. The run starts by making the output directory, and an
  archive that is missing does not keep that call from failing first. Here the
  archive \<^verbatim>\<open>data/GSE68849_RAW.tar\<close> does not exist and \<^verbatim>\<open>processed_data\<close> is a regular
  file: \<^verbatim>\<open>os.makedirs\<close> raises \<^verbatim>\<open>FileExistsError\<close>, and the run ends with that error and
  not with the \<^verbatim>\<open>FileNotFoundError\<close> of line 57 (MissingInput).
\<close>

theorem missing_archive_counterexample:
  "\<not> os_path_exists (Dir [(''processed_data'', File False ''x'')])
       (output_target (DownloadDataset ''GSE68849'' ''data''))
   \<and> ExtractAndProcessFiles_run (\<lambda>s. None) (\<lambda>s. None) ''GSE68849'' ''data'' ''processed_data''
        (Dir [(''processed_data'', File False ''x'')]) =
      (Raised (OSError EEXIST ''processed_data''), Dir [(''processed_data'', File False ''x'')])"
  by code_simp

text \<open>
  Claim C5, amended. When the archive path is no file, \<^verbatim>\<open>ExtractAndProcessFiles.run\<close>
  fails before it opens or extracts anything, and it writes no file. If the output
  directory can be made (or is there), the run raises the \<^verbatim>\<open>FileNotFoundError\<close> of
  line 57 (MissingInput) naming the archive path, and the file system it leaves is
  the one \<^verbatim>\<open>os.makedirs\<close> left. If the output directory cannot be made, the error of
  \<^verbatim>\<open>os.makedirs\<close>, an \<^verbatim>\<open>OSError\<close> or a \<^verbatim>\<open>ValueError\<close>, ends the run in place of
  MissingInput. Either way every regular file is as before, and the result does not
  depend on \<open>untar\<close> and \<open>gunzip\<close>: no archive is read.
\<close>

theorem missing_archive_fails_before_extraction:
  assumes "\<not> os_path_isfile fs (output_target (DownloadDataset dataset_id download_dir))"
  shows "(\<forall>fs1. os_makedirs output_dir fs = Inr fs1 \<longrightarrow>
            ExtractAndProcessFiles_run untar gunzip dataset_id download_dir output_dir fs =
              (Raised (FileNotFoundError (''TAR file does not exist: '' @
                 os_path_join download_dir (dataset_id @ ''_RAW.tar''))), fs1)
            \<and> (\<forall>p l s. (stat fs1 p = Some (File l s)) = (stat fs p = Some (File l s))))
         \<and> (\<forall>e fs0. os_makedirs output_dir fs = Inl (e, fs0) \<longrightarrow>
            ExtractAndProcessFiles_run untar gunzip dataset_id download_dir output_dir fs =
              (Raised e, fs0)
            \<and> (e = ValueError \<or> (\<exists>c q. e = OSError c q))
            \<and> (\<forall>p l s. (stat fs0 p = Some (File l s)) = (stat fs p = Some (File l s))))"
proof (intro conjI allI impI)
  fix fs1
  assume m: "os_makedirs output_dir fs = Inr fs1"
  have "\<not> os_path_isfile fs1 (output_target (DownloadDataset dataset_id download_dir))"
    using assms os_makedirs_isfile [OF m] by simp
  then show "ExtractAndProcessFiles_run untar gunzip dataset_id download_dir output_dir fs =
      (Raised (FileNotFoundError (''TAR file does not exist: '' @
         os_path_join download_dir (dataset_id @ ''_RAW.tar''))), fs1)"
    using m by (simp add: ExtractAndProcessFiles_run_def)
  fix p l s
  show "(stat fs1 p = Some (File l s)) = (stat fs p = Some (File l s))"
    using os_makedirs_files [OF m] by simp
next
  fix e fs0
  assume m: "os_makedirs output_dir fs = Inl (e, fs0)"
  then show "ExtractAndProcessFiles_run untar gunzip dataset_id download_dir output_dir fs =
      (Raised e, fs0)"
    by (simp add: ExtractAndProcessFiles_run_def)
  show "e = ValueError \<or> (\<exists>c q. e = OSError c q)"
    using os_makedirs_error [OF m] .
  fix p l s
  show "(stat fs0 p = Some (File l s)) = (stat fs p = Some (File l s))"
    using os_makedirs_fails_files [OF m] by simp
qed

theorem missing_archive_fails_before_extraction_witness:
  "\<not> os_path_isfile (Dir []) (output_target (DownloadDataset ''GSE68849'' ''data''))
   \<and> os_makedirs ''processed_data'' (Dir []) = Inr (Dir [(''processed_data'', Dir [])])
   \<and> ExtractAndProcessFiles_run (\<lambda>s. None) (\<lambda>s. None) ''GSE68849'' ''data'' ''processed_data''
        (Dir []) =
      (Raised (FileNotFoundError ''TAR file does not exist: data/GSE68849_RAW.tar''),
       Dir [(''processed_data'', Dir [])])
   \<and> os_makedirs ''data/out'' (Dir [(''data'', File False ''x'')]) =
        Inl (OSError ENOTDIR ''data/out'', Dir [(''data'', File False ''x'')])
   \<and> ExtractAndProcessFiles_run (\<lambda>s. None) (\<lambda>s. None) ''GSE68849'' ''data'' ''data/out''
        (Dir [(''data'', File False ''x'')]) =
      (Raised (OSError ENOTDIR ''data/out''), Dir [(''data'', File False ''x'')])"
proof -
  have h: "\<not> os_path_isfile (Dir []) (output_target (DownloadDataset ''GSE68849'' ''data''))"
    by code_simp
  have m: "os_makedirs ''processed_data'' (Dir []) = Inr (Dir [(''processed_data'', Dir [])])"
    by code_simp
  have j: "os_path_join ''data'' (''GSE68849'' @ ''_RAW.tar'') = ''data/GSE68849_RAW.tar''"
    by code_simp
  have 1: "ExtractAndProcessFiles_run (\<lambda>s. None) (\<lambda>s. None) ''GSE68849'' ''data''
             ''processed_data'' (Dir []) =
           (Raised (FileNotFoundError ''TAR file does not exist: data/GSE68849_RAW.tar''),
            Dir [(''processed_data'', Dir [])])"
    using missing_archive_fails_before_extraction
      [OF h, where output_dir = "''processed_data''" and untar = "\<lambda>s. None"
        and gunzip = "\<lambda>s. None"] m j
    by simp
  define blocked where "blocked = Dir [(''data'', File False ''x'')]"
  have h': "\<not> os_path_isfile blocked (output_target (DownloadDataset ''GSE68849'' ''data''))"
    unfolding blocked_def by code_simp
  have m': "os_makedirs ''data/out'' blocked = Inl (OSError ENOTDIR ''data/out'', blocked)"
    unfolding blocked_def by code_simp
  have 2: "ExtractAndProcessFiles_run (\<lambda>s. None) (\<lambda>s. None) ''GSE68849'' ''data'' ''data/out''
             blocked = (Raised (OSError ENOTDIR ''data/out''), blocked)"
    using missing_archive_fails_before_extraction
      [OF h', where output_dir = "''data/out''" and untar = "\<lambda>s. None"
        and gunzip = "\<lambda>s. None"] m'
    by simp
  show ?thesis
    using h m 1 m' 2 by (simp add: blocked_def)
qed

text \<open>
  Claim C6. The output directory is made before the archive is looked for. So a run
  that fails with the missing-archive error leaves its output target, the output
  directory, in place: the stage counts as complete, and the next check of the stage
  skips it.
\<close>

theorem failed_run_leaves_output_target:
  assumes "ExtractAndProcessFiles_run untar gunzip dataset_id download_dir output_dir fs =
             (Raised (FileNotFoundError (''TAR file does not exist: '' @
                output_target (DownloadDataset dataset_id download_dir))), fs')"
  shows "os_path_isdir fs' output_dir
         \<and> complete (ExtractAndProcessFiles dataset_id download_dir output_dir) fs'
         \<and> check_stage (ExtractAndProcessFiles dataset_id download_dir output_dir) fs' = Skipped"
proof -
  obtain fs1 where m: "os_makedirs output_dir fs = Inr fs1"
    using assms
    by (cases "os_makedirs output_dir fs")
       (auto simp: ExtractAndProcessFiles_run_def dest: os_makedirs_error)
  have "fs' = fs1"
    using assms m
    by (auto simp: ExtractAndProcessFiles_run_def Let_def
        dest: extract_members_error read_file_error split: if_splits sum.splits option.splits)
  then have d: "os_path_isdir fs' output_dir"
    using os_makedirs_isdir [OF m] by simp
  then have "os_path_exists fs' output_dir"
    by (auto simp: os_path_isdir_def os_path_exists_def split: option.splits)
  with d show ?thesis
    by (simp add: complete_def check_stage_def)
qed

theorem failed_run_leaves_output_target_witness:
  "ExtractAndProcessFiles_run (\<lambda>s. None) (\<lambda>s. None) ''GSE68849'' ''data'' ''processed_data''
     (Dir []) =
     (Raised (FileNotFoundError ''TAR file does not exist: data/GSE68849_RAW.tar''),
      Dir [(''processed_data'', Dir [])])
   \<and> os_path_isdir (Dir [(''processed_data'', Dir [])]) ''processed_data''
   \<and> complete (ExtractAndProcessFiles ''GSE68849'' ''data'' ''processed_data'')
         (Dir [(''processed_data'', Dir [])])
   \<and> check_stage (ExtractAndProcessFiles ''GSE68849'' ''data'' ''processed_data'')
         (Dir [(''processed_data'', Dir [])]) = Skipped"
proof -
  have r: "ExtractAndProcessFiles_run (\<lambda>s. None) (\<lambda>s. None) ''GSE68849'' ''data''
             ''processed_data'' (Dir []) =
           (Raised (FileNotFoundError (''TAR file does not exist: '' @
              output_target (DownloadDataset ''GSE68849'' ''data''))),
            Dir [(''processed_data'', Dir [])])"
    by code_simp
  have m: "''TAR file does not exist: '' @ output_target (DownloadDataset ''GSE68849'' ''data'') =
           ''TAR file does not exist: data/GSE68849_RAW.tar''"
    by code_simp
  show ?thesis
    using failed_run_leaves_output_target [OF r] r m by simp
qed

section \<open>ProbesTrimmer\<close>

text \<open>
  Making the output directory does not change what the search finds: the directories
  it adds hold no files.
\<close>

lemma probes_in_simps:
  "probes_in [] = []"
  "probes_in ((r, ds, fs) # ts) =
     map (os_path_join r) (filter (\<lambda>file. endswith file ''_Probes.tsv'') fs) @ probes_in ts"
  "probes_in (xs @ ys) = probes_in xs @ probes_in ys"
  by (simp_all add: probes_in_def)

lemma fresh_dirs_is_dir: "\<exists>es. fresh_dirs cs = Dir es"
  by (cases cs) auto

lemma probes_in_fresh_dirs: "probes_in (walk r (fresh_dirs cs)) = []"
proof (induction cs arbitrary: r)
  case Nil
  then show ?case by (simp add: probes_in_simps)
next
  case (Cons c cs)
  obtain es where "fresh_dirs cs = Dir es" using fresh_dirs_is_dir by blast
  then show ?case using Cons [of "os_path_join r c"] by (simp add: probes_in_simps)
qed

lemma mkdirs_is_dir:
  "mkdirs cs n = Inr n' \<Longrightarrow> (\<exists>es. n = Dir es) \<and> (\<exists>es'. n' = Dir es')"
  by (cases cs; cases n) (auto split: sum.splits)

lemma mkdirs_found:
  "mkdirs cs n = Inr n' \<Longrightarrow> probes_in (walk r n') = probes_in (walk r n)"
  "mkdirs_in c cs es = Inr es' \<Longrightarrow>
     filenames es' = filenames es \<and> probes_in (walk_subdirs r es') = probes_in (walk_subdirs r es)"
proof (induction cs n and c cs es arbitrary: n' r and es' r rule: mkdirs_mkdirs_in.induct)
  case (4 c cs es)
  then show ?case by (auto simp: probes_in_simps split: sum.splits)
next
  case (5 c cs)
  obtain es where "fresh_dirs cs = Dir es" using fresh_dirs_is_dir by blast
  then show ?case
    using 5 probes_in_fresh_dirs [of "os_path_join r c" cs] by (auto simp: probes_in_simps)
next
  case (6 c cs k n es)
  show ?case
  proof (cases "k = c")
    case True
    then obtain n1 where m: "mkdirs cs n = Inr n1" and e: "es' = (k, n1) # es"
      using 6(3) by (auto split: sum.splits)
    obtain a b where "n = Dir a" "n1 = Dir b"
      using mkdirs_is_dir [OF m] by blast
    then show ?thesis
      using 6(1) [OF True m] True e by (auto simp: probes_in_simps)
  next
    case False
    then obtain es1 where m: "mkdirs_in c cs es = Inr es1" and e: "es' = (k, n) # es1"
      using 6(3) by (auto split: sum.splits)
    show ?thesis
      using 6(2) [OF False m] e by (cases n) (auto simp: probes_in_simps)
  qed
qed auto

lemma lookup_fresh_dirs_found:
  "lookup (fresh_dirs cs) q = Some m \<Longrightarrow> probes_in (walk r m) = []"
proof (induction cs arbitrary: q)
  case Nil
  then show ?case by (cases q) (auto simp: probes_in_simps)
next
  case (Cons c cs)
  then show ?case
  proof (cases q)
    case Nil
    then show ?thesis
      using Cons.prems probes_in_fresh_dirs [of r "c # cs"] by simp
  next
    case (Cons c' q')
    then show ?thesis
      using Cons.prems Cons.IH [of q'] by (auto split: if_splits)
  qed
qed

lemma mkdirs_lookup_found:
  "mkdirs cs n = Inr n' \<Longrightarrow>
     (case lookup n q of
        Some m \<Rightarrow> \<exists>m'. lookup n' q = Some m' \<and> probes_in (walk r m') = probes_in (walk r m)
      | None \<Rightarrow> (case lookup n' q of None \<Rightarrow> True | Some m' \<Rightarrow> probes_in (walk r m') = []))"
  "mkdirs_in c cs es = Inr es' \<Longrightarrow>
     (case lookup_in es c' q of
        Some m \<Rightarrow> \<exists>m'. lookup_in es' c' q = Some m' \<and> probes_in (walk r m') = probes_in (walk r m)
      | None \<Rightarrow> (case lookup_in es' c' q of None \<Rightarrow> True
                  | Some m' \<Rightarrow> probes_in (walk r m') = []))"
proof (induction cs n and c cs es arbitrary: n' q and es' c' q rule: mkdirs_mkdirs_in.induct)
  case (1 es)
  then show ?case by (auto split: option.splits)
next
  case (4 c cs es)
  from 4(2) obtain es1 where m: "mkdirs_in c cs es = Inr es1" and n': "n' = Dir es1"
    by (auto split: sum.splits)
  show ?case
  proof (cases q)
    case Nil
    then show ?thesis
      using mkdirs_found(1) [OF 4(2), of r] by simp
  next
    case (Cons c' q')
    then show ?thesis
      using 4(1) [OF m, of c' q'] n' by (auto split: option.splits)
  qed
next
  case (5 c cs)
  then show ?case
    by (auto simp: lookup_fresh_dirs_found split: option.splits if_splits)
next
  case (6 c cs k n es)
  show ?case
  proof (cases "k = c")
    case True
    then obtain n1 where m: "mkdirs cs n = Inr n1" and e: "es' = (k, n1) # es"
      using 6(3) by (auto split: sum.splits)
    show ?thesis
      using 6(1) [OF True m, of q] e by (auto split: option.splits)
  next
    case False
    then obtain es1 where m: "mkdirs_in c cs es = Inr es1" and e: "es' = (k, n) # es1"
      using 6(3) by (auto split: sum.splits)
    show ?thesis
      using 6(2) [OF False m, of c' q] e by (auto split: option.splits)
  qed
qed auto

lemma find_probes_files_found:
  "find_probes_files fs p =
     (if embedded_null p then Inl ValueError
      else Inr (case stat fs p of Some n \<Rightarrow> probes_in (walk p n) | None \<Rightarrow> []))"
  by (simp add: find_probes_files_def os_walk_def probes_in_def split: option.splits)

lemma makedirs_keeps_search:
  assumes "os_makedirs output_dir fs = Inr fs1"
  shows "find_probes_files fs1 p = find_probes_files fs p"
proof (cases "p = []")
  case True
  then show ?thesis by (simp add: find_probes_files_found stat_def)
next
  case False
  have m: "mkdirs (parts output_dir) fs = Inr fs1"
    using os_makedirs_Inr [OF assms] by simp
  show ?thesis
    using mkdirs_lookup_found(1) [OF m, where q = "parts p" and r = p] False
    by (auto simp: find_probes_files_found stat_def split: option.splits)
qed

lemma trim_files_append:
  "trim_files out (xs @ ys) fs =
     (case trim_files out xs fs of
        (Raised e, fs') \<Rightarrow> (Raised e, fs')
      | (Done, fs') \<Rightarrow> trim_files out ys fs')"
  by (induction xs arbitrary: fs) (auto split: sum.splits)

lemma trim_files_failure_state:
  "trim_files out [f] fs = (Raised e, fs') \<Longrightarrow> fs' = fs"
  by (auto split: sum.splits)

text \<open>
  A file that fails to load, or whose trimmed table fails to be written, ends the
  loop with that exception, whatever files come after it.
\<close>

lemma trim_files_load_failure:
  "read_csv_path f fs = Inl e \<Longrightarrow> trim_files out (f # remaining) fs = (Raised e, fs)"
  by simp

lemma trim_files_write_failure:
  "read_csv_path f fs = Inr probes_df \<Longrightarrow>
   df_drop (map Name columns_to_remove) ErrorsIgnore probes_df = Inr t \<Longrightarrow>
   to_csv t (trimmed_path out f) fs = Inl e \<Longrightarrow>
   trim_files out (f # remaining) fs = (Raised e, fs)"
  by simp

lemma df_drop_ignore:
  "df_drop labels ErrorsIgnore df =
     Inr \<lparr>columns = filter (\<lambda>c. c \<notin> set labels) (columns df),
          rows = map (\<lambda>r. map snd (filter (\<lambda>(c, v). c \<notin> set labels) (zip (columns df) r)))
                   (rows df)\<rparr>"
  by (simp add: df_drop_def)

text \<open>
  Claim C7, as stated, fails. The run starts by making its output directory, before
  it searches. Here the processed directory is empty, so the search finds no file,
  and \<^verbatim>\<open>trimmed_probes\<close> is a regular file: \<^verbatim>\<open>os.makedirs\<close> raises \<^verbatim>\<open>FileExistsError\<close>, and
  the run ends with that error and not with the \<^verbatim>\<open>FileNotFoundError\<close> of line 145
  (NoInputFound).
\<close>

theorem no_probes_files_counterexample:
  "find_probes_files (Dir [(''processed_data'', Dir []), (''trimmed_probes'', File False ''x'')])
     ''processed_data'' = Inr []
   \<and> TrimProbesTable_run ''GSE68849'' ''data'' ''processed_data'' ''trimmed_probes''
        (Dir [(''processed_data'', Dir []), (''trimmed_probes'', File False ''x'')]) =
      (Raised (OSError EEXIST ''trimmed_probes''),
       Dir [(''processed_data'', Dir []), (''trimmed_probes'', File False ''x'')])"
  by code_simp

text \<open>
  Claim C7, amended. The search of the processed directory finds no file ending
  \<^verbatim>\<open>_Probes.tsv\<close>. If the output directory can be made (or is there),
  \<^verbatim>\<open>TrimProbesTable.run\<close> raises the \<^verbatim>\<open>FileNotFoundError\<close> of line 145 (NoInputFound) and
  writes no file, its completion marker included: the regular files are those from
  before the run, and the stage is complete after the run only if it was before. If
  the output directory cannot be made, the error of \<^verbatim>\<open>os.makedirs\<close>, an \<^verbatim>\<open>OSError\<close> or a
  \<^verbatim>\<open>ValueError\<close>, ends the run before the search, in place of NoInputFound; no file is
  written then either.
\<close>

theorem no_probes_files_is_fatal:
  assumes "find_probes_files fs processed_data_dir = Inr []"
  shows "(\<forall>fs1. os_makedirs output_dir fs = Inr fs1 \<longrightarrow>
            TrimProbesTable_run dataset_id download_dir processed_data_dir output_dir fs =
              (Raised (FileNotFoundError
                 (''No Probes files found in the directory: '' @ processed_data_dir)), fs1)
            \<and> (\<forall>p l s. (stat fs1 p = Some (File l s)) = (stat fs p = Some (File l s)))
            \<and> complete (TrimProbesTable dataset_id download_dir processed_data_dir output_dir) fs1 =
                complete (TrimProbesTable dataset_id download_dir processed_data_dir output_dir) fs)
         \<and> (\<forall>e fs0. os_makedirs output_dir fs = Inl (e, fs0) \<longrightarrow>
            TrimProbesTable_run dataset_id download_dir processed_data_dir output_dir fs =
              (Raised e, fs0)
            \<and> (e = ValueError \<or> (\<exists>c q. e = OSError c q))
            \<and> (\<forall>p l s. (stat fs0 p = Some (File l s)) = (stat fs p = Some (File l s))))"
proof (intro conjI allI impI)
  fix fs1
  assume m: "os_makedirs output_dir fs = Inr fs1"
  have f: "find_probes_files fs1 processed_data_dir = Inr []"
    using assms makedirs_keeps_search [OF m] by simp
  then show "TrimProbesTable_run dataset_id download_dir processed_data_dir output_dir fs =
      (Raised (FileNotFoundError
         (''No Probes files found in the directory: '' @ processed_data_dir)), fs1)"
    using m by (simp add: TrimProbesTable_run_def)
  have "stat fs1 (os_path_join output_dir ''Probes_trimmed.tsv'') =
        stat fs (os_path_join output_dir ''Probes_trimmed.tsv'')"
    by (rule os_makedirs_child [OF m]) simp_all
  then show "complete (TrimProbesTable dataset_id download_dir processed_data_dir output_dir) fs1 =
      complete (TrimProbesTable dataset_id download_dir processed_data_dir output_dir) fs"
    by (simp add: complete_def os_path_exists_def)
  fix p l s
  show "(stat fs1 p = Some (File l s)) = (stat fs p = Some (File l s))"
    using os_makedirs_files [OF m] by simp
next
  fix e fs0
  assume m: "os_makedirs output_dir fs = Inl (e, fs0)"
  then show "TrimProbesTable_run dataset_id download_dir processed_data_dir output_dir fs =
      (Raised e, fs0)"
    by (simp add: TrimProbesTable_run_def)
  show "e = ValueError \<or> (\<exists>c q. e = OSError c q)"
    using os_makedirs_error [OF m] .
  fix p l s
  show "(stat fs0 p = Some (File l s)) = (stat fs p = Some (File l s))"
    using os_makedirs_fails_files [OF m] by simp
qed

theorem no_probes_files_is_fatal_witness:
  "os_makedirs ''trimmed_probes''
     (Dir [(''processed_data'', Dir [(''GSM1.txt'', Dir [(''GSM1.txt'', File False ''x'')])])]) =
     Inr (Dir [(''processed_data'', Dir [(''GSM1.txt'', Dir [(''GSM1.txt'', File False ''x'')])]),
               (''trimmed_probes'', Dir [])])
   \<and> find_probes_files
         (Dir [(''processed_data'', Dir [(''GSM1.txt'', Dir [(''GSM1.txt'', File False ''x'')])])])
         ''processed_data'' = Inr []
   \<and> TrimProbesTable_run ''GSE68849'' ''data'' ''processed_data'' ''trimmed_probes''
         (Dir [(''processed_data'', Dir [(''GSM1.txt'', Dir [(''GSM1.txt'', File False ''x'')])])]) =
       (Raised (FileNotFoundError ''No Probes files found in the directory: processed_data''),
        Dir [(''processed_data'', Dir [(''GSM1.txt'', Dir [(''GSM1.txt'', File False ''x'')])]),
             (''trimmed_probes'', Dir [])])
   \<and> find_probes_files (Dir [(''out'', File False ''x'')]) ''processed_data'' = Inr []
   \<and> os_makedirs ''out/trimmed'' (Dir [(''out'', File False ''x'')]) =
        Inl (OSError ENOTDIR ''out/trimmed'', Dir [(''out'', File False ''x'')])
   \<and> TrimProbesTable_run ''GSE68849'' ''data'' ''processed_data'' ''out/trimmed''
         (Dir [(''out'', File False ''x'')]) =
       (Raised (OSError ENOTDIR ''out/trimmed''), Dir [(''out'', File False ''x'')])"
proof -
  define fs where "fs = Dir [(''processed_data'', Dir [(''GSM1.txt'', Dir
        [(''GSM1.txt'', File False ''x'')])])]"
  define fs1 where "fs1 = Dir [(''processed_data'', Dir [(''GSM1.txt'', Dir
        [(''GSM1.txt'', File False ''x'')])]), (''trimmed_probes'', Dir [])]"
  define blocked where "blocked = Dir [(''out'', File False ''x'')]"
  have m: "os_makedirs ''trimmed_probes'' fs = Inr fs1"
    unfolding fs_def fs1_def by code_simp
  have f: "find_probes_files fs ''processed_data'' = Inr []"
    unfolding fs_def by code_simp
  have 1: "TrimProbesTable_run ''GSE68849'' ''data'' ''processed_data'' ''trimmed_probes'' fs =
       (Raised (FileNotFoundError ''No Probes files found in the directory: processed_data''), fs1)"
    using no_probes_files_is_fatal [OF f, where dataset_id = "''GSE68849''"
        and download_dir = "''data''" and output_dir = "''trimmed_probes''"] m
    by simp
  have m': "os_makedirs ''out/trimmed'' blocked = Inl (OSError ENOTDIR ''out/trimmed'', blocked)"
    unfolding blocked_def by code_simp
  have f': "find_probes_files blocked ''processed_data'' = Inr []"
    unfolding blocked_def by code_simp
  have 2: "TrimProbesTable_run ''GSE68849'' ''data'' ''processed_data'' ''out/trimmed'' blocked =
       (Raised (OSError ENOTDIR ''out/trimmed''), blocked)"
    using no_probes_files_is_fatal [OF f', where dataset_id = "''GSE68849''"
        and download_dir = "''data''" and output_dir = "''out/trimmed''"] m'
    by simp
  show ?thesis
    using m f 1 f' m' 2 by (simp add: fs_def fs1_def blocked_def)
qed



text \<open>
  The trimmed files and the marker are different entries of the output directory: a
  file the search found has a name that ends \<^verbatim>\<open>_Probes.tsv\<close>, so its trimmed name
  holds \<^verbatim>\<open>_trimmed_Probes.tsv\<close> and is longer than the marker's name.
\<close>

lemma find_probes_files_names:
  assumes "find_probes_files fs processed_data_dir = Inr files" and "f \<in> set files"
  shows "suffix ''_Probes.tsv'' (os_path_basename f)"
proof -
  obtain r nm where f: "f = os_path_join r nm" and e: "endswith nm ''_Probes.tsv''"
    using assms by (auto simp: find_probes_files_def probes_in_def split: sum.splits)
  have "suffix ''_Probes.tsv'' f"
    using e join_suffix [of nm r] by (auto simp: f endswith_suffix intro: suffix_order.trans)
  then show ?thesis by (rule basename_suffix) simp
qed

lemma trimmed_name:
  assumes "suffix ''_Probes.tsv'' b" and "CHR ''/'' \<notin> set b"
  defines "t \<equiv> replace ''_Probes.tsv'' ''_trimmed_Probes.tsv'' b"
  shows "CHR ''/'' \<notin> set t" and "19 \<le> length t"
proof -
  show "CHR ''/'' \<notin> set t"
    using replace_set [of "''_Probes.tsv''" "''_trimmed_Probes.tsv''" b] assms(2)
    by (auto simp: t_def)
  have "sublist ''_Probes.tsv'' b"
    using assms(1) by (auto simp: suffix_def sublist_def)
  then have "sublist ''_trimmed_Probes.tsv'' t"
    unfolding t_def by (intro replace_sublist) simp_all
  then have "length ''_trimmed_Probes.tsv'' \<le> length t"
    by (rule sublist_length_le)
  then show "19 \<le> length t" by simp
qed

lemma marker_parts:
  "parts (os_path_join d ''Probes_trimmed.tsv'') =
     parts (os_path_dirname (os_path_join d ''Probes_trimmed.tsv'')) @ [''Probes_trimmed.tsv'']"
  using parts_dirname_basename [of "os_path_join d ''Probes_trimmed.tsv''"]
  by (simp add: basename_join_name parts_name)

lemma marker_dir_parts:
  "parts (os_path_dirname (os_path_join d ''Probes_trimmed.tsv'')) = parts d"
  using marker_parts [of d] parts_join_name [of "''Probes_trimmed.tsv''" d] by simp

lemma trimmed_path_parts:
  assumes "suffix ''_Probes.tsv'' (os_path_basename f)"
  shows "\<exists>t. parts (trimmed_path (os_path_join d ''Probes_trimmed.tsv'') f) = parts d @ [t]
             \<and> t \<noteq> ''Probes_trimmed.tsv''"
proof -
  define t where "t = replace ''_Probes.tsv'' ''_trimmed_Probes.tsv'' (os_path_basename f)"
  have 1: "CHR ''/'' \<notin> set t" and 2: "19 \<le> length t"
    using trimmed_name [OF assms basename_no_slash] by (simp_all add: t_def)
  have 3: "t \<noteq> []" "t \<noteq> ''.''" "t \<noteq> ''Probes_trimmed.tsv''"
    using 2 by auto
  have "parts (trimmed_path (os_path_join d ''Probes_trimmed.tsv'') f) = parts d @ [t]"
    using 1 3 by (simp add: trimmed_path_def t_def [symmetric] parts_join_name marker_dir_parts)
  with 3 show ?thesis by blast
qed

lemma to_csv_trimmed_keeps_marker:
  assumes "suffix ''_Probes.tsv'' (os_path_basename f)"
    and "to_csv df (trimmed_path (os_path_join d ''Probes_trimmed.tsv'') f) fs = Inr fs'"
  shows "stat fs' (os_path_join d ''Probes_trimmed.tsv'') =
         stat fs (os_path_join d ''Probes_trimmed.tsv'')"
    and "(\<exists>es. lookup fs' (parts d) = Some (Dir es))"
proof -
  obtain t where t: "parts (trimmed_path (os_path_join d ''Probes_trimmed.tsv'') f) = parts d @ [t]"
    and ne: "t \<noteq> ''Probes_trimmed.tsv''"
    using trimmed_path_parts [OF assms(1)] by blast
  have w: "write_file (trimmed_path (os_path_join d ''Probes_trimmed.tsv'') f) (csv_text df) fs =
             Inr fs'"
    using assms(2) by (simp add: to_csv_def)
  show "stat fs' (os_path_join d ''Probes_trimmed.tsv'') =
        stat fs (os_path_join d ''Probes_trimmed.tsv'')"
    using ne by (intro write_file_other [OF w]) (simp_all add: t parts_join_name join_name_nonempty)
  have "modify (\<lambda>cur. case cur of None \<Rightarrow> Inr (Some (File False (csv_text df)))
                 | Some (File l old) \<Rightarrow> if l then Inl EPERM else Inr (Some (File l (csv_text df)))
                 | Some (Dir es) \<Rightarrow> Inl EISDIR) (parts d @ [t]) fs = Inr fs'"
    using write_file_Inr [OF w] by (simp add: t)
  then show "\<exists>es. lookup fs' (parts d) = Some (Dir es)"
    by (rule modify_keeps_ancestor(1)) (simp add: strict_prefix_def)
qed

lemma trim_files_keeps_marker:
  assumes "\<forall>f \<in> set files. suffix ''_Probes.tsv'' (os_path_basename f)"
    and "trim_files (os_path_join d ''Probes_trimmed.tsv'') files fs = (r, fs')"
  shows "stat fs' (os_path_join d ''Probes_trimmed.tsv'') =
         stat fs (os_path_join d ''Probes_trimmed.tsv'')"
  using assms
proof (induction files arbitrary: fs)
  case Nil
  then show ?case by simp
next
  case (Cons f files)
  show ?case
  proof (cases "read_csv_path f fs")
    case (Inl e)
    then show ?thesis using Cons.prems by simp
  next
    case (Inr df)
    define t where "t = \<lparr>columns = filter (\<lambda>c. c \<notin> set (map Name columns_to_remove)) (columns df),
       rows = map (\<lambda>r. map snd (filter (\<lambda>(c, v). c \<notin> set (map Name columns_to_remove))
                                       (zip (columns df) r))) (rows df)\<rparr>"
    have dd: "df_drop (map Name columns_to_remove) ErrorsIgnore df = Inr t"
      by (simp add: df_drop_ignore t_def)
    show ?thesis
    proof (cases "to_csv t (trimmed_path (os_path_join d ''Probes_trimmed.tsv'') f) fs")
      case (Inl e)
      then show ?thesis using Cons.prems Inr dd by simp
    next
      case w: (Inr fs1)
      have "stat fs1 (os_path_join d ''Probes_trimmed.tsv'') =
            stat fs (os_path_join d ''Probes_trimmed.tsv'')"
        using to_csv_trimmed_keeps_marker(1) [OF _ w] Cons.prems(1) by simp
      moreover have "stat fs' (os_path_join d ''Probes_trimmed.tsv'') =
            stat fs1 (os_path_join d ''Probes_trimmed.tsv'')"
        using Cons.IH [of fs1] Cons.prems Inr dd w by simp
      ultimately show ?thesis by simp
    qed
  qed
qed

lemma trim_files_keeps_output_dir:
  assumes "\<forall>f \<in> set files. suffix ''_Probes.tsv'' (os_path_basename f)"
    and "trim_files (os_path_join d ''Probes_trimmed.tsv'') files fs = (r, fs')"
    and "\<exists>es. lookup fs (parts d) = Some (Dir es)"
  shows "\<exists>es. lookup fs' (parts d) = Some (Dir es)"
  using assms
proof (induction files arbitrary: fs)
  case Nil
  then show ?case by simp
next
  case (Cons f files)
  show ?case
  proof (cases "read_csv_path f fs")
    case (Inl e)
    then show ?thesis using Cons.prems by auto
  next
    case (Inr df)
    define t where "t = \<lparr>columns = filter (\<lambda>c. c \<notin> set (map Name columns_to_remove)) (columns df),
       rows = map (\<lambda>r. map snd (filter (\<lambda>(c, v). c \<notin> set (map Name columns_to_remove))
                                       (zip (columns df) r))) (rows df)\<rparr>"
    have dd: "df_drop (map Name columns_to_remove) ErrorsIgnore df = Inr t"
      by (simp add: df_drop_ignore t_def)
    show ?thesis
    proof (cases "to_csv t (trimmed_path (os_path_join d ''Probes_trimmed.tsv'') f) fs")
      case (Inl e)
      then show ?thesis using Cons.prems Inr dd by auto
    next
      case w: (Inr fs1)
      have "\<exists>es. lookup fs1 (parts d) = Some (Dir es)"
        using to_csv_trimmed_keeps_marker(2) [OF _ w] Cons.prems(1) by simp
      then show ?thesis
        using Cons.IH [of fs1] Cons.prems Inr dd w by simp
    qed
  qed
qed

lemma local_target_write_marker:
  assumes "\<exists>es. lookup fs (parts d) = Some (Dir es)"
    and "stat fs (os_path_join d ''Probes_trimmed.tsv'') = None"
    and "\<not> embedded_null d"
  shows "\<exists>fs3. local_target_write (os_path_join d ''Probes_trimmed.tsv'') s fs = (Done, fs3)
           \<and> read_file fs3 (os_path_join d ''Probes_trimmed.tsv'') = Inr s"
proof -
  define out where "out = os_path_join d ''Probes_trimmed.tsv''"
  have ne: "out \<noteq> []" by (simp add: out_def join_name_nonempty)
  have po: "parts out = parts d @ [''Probes_trimmed.tsv'']"
    by (simp add: out_def parts_join_name)
  have pd: "parts (os_path_dirname out) = parts d"
    by (simp add: out_def marker_dir_parts)
  have nn: "\<not> embedded_null out"
    using assms(3) join_set [of d "''Probes_trimmed.tsv''"]
    by (auto simp: out_def embedded_null_def)
  then have nd: "\<not> embedded_null (os_path_dirname out)"
    using dirname_set [of out] by (auto simp: embedded_null_def)
  have mk: "os_path_dirname out \<noteq> [] \<Longrightarrow> os_makedirs (os_path_dirname out) fs = Inr fs"
    using assms(1) nd by (auto simp: os_makedirs_def pd mkdirs_existing(1))
  have none: "lookup fs (parts out) = None"
    using assms(2) ne by (simp add: stat_def out_def)
  have "\<exists>n'. modify (\<lambda>cur. case cur of None \<Rightarrow> Inr (Some (File False s))
                 | Some (File l old) \<Rightarrow> if l then Inl EPERM else Inr (Some (File l s))
                 | Some (Dir es) \<Rightarrow> Inl EISDIR) (parts out) fs = Inr n'"
    using assms(1) none by (intro modify_create(1) [where x = "File False s"]) (simp_all add: po)
  then obtain fs3 where w: "write_file out s fs = Inr fs3"
    using ne nn by (auto simp: write_file_def)
  have "local_target_write out s fs = (Done, fs3)"
    using w mk by (cases "os_path_dirname out = []") (simp_all add: local_target_write_def)
  then show ?thesis
    using write_file_read [OF w] by (auto simp: out_def)
qed

text \<open>
  Claim C1, as stated, fails. The processed directory holds two Probes files; the
  first is empty, so loading it raises \<^verbatim>\<open>EmptyDataError\<close>. The run ends with that
  exception: the second file is not trimmed and the marker is not written (the
  output directory is empty afterwards).
\<close>

theorem trim_failure_aborts_counterexample:
  "TrimProbesTable_run ''GSE68849'' ''data'' ''processed_data'' ''trimmed_probes''
     (Dir [(''processed_data'', Dir [(''GSM1.txt'', Dir
        [(''GSM1_Probes.tsv'', File False []),
         (''GSM2_Probes.tsv'', File False (''ID_REF'' @ [TAB] @ ''Definition'' @ [NL] @
                                            ''1'' @ [TAB] @ ''foo'' @ [NL]))])])]) =
     (Raised EmptyDataError,
      Dir [(''processed_data'', Dir [(''GSM1.txt'', Dir
        [(''GSM1_Probes.tsv'', File False []),
         (''GSM2_Probes.tsv'', File False (''ID_REF'' @ [TAB] @ ''Definition'' @ [NL] @
                                            ''1'' @ [TAB] @ ''foo'' @ [NL]))])]),
           (''trimmed_probes'', Dir [])])"
  by code_simp

text \<open>
  Claim C1, amended. The output directory has been made and the search has found
  files. They are processed one after another. If one of them fails to load, or its
  trimmed table fails to be written, after the files before it went through, the
  run ends there with that exception: the files after it are not processed, and the
  marker is neither written nor changed. If every file is loaded and written, the
  run goes on to write the marker with its fixed text; when the stage was not
  complete before the run, that write succeeds and the marker then holds the text.
\<close>

theorem trim_run_stops_at_first_failure:
  assumes mk: "os_makedirs output_dir fs = Inr fs1"
    and search: "find_probes_files fs processed_data_dir = Inr files" "files \<noteq> []"
  shows "(\<forall>fs2. trim_files (os_path_join output_dir ''Probes_trimmed.tsv'') files fs1 = (Done, fs2) \<longrightarrow>
            TrimProbesTable_run dataset_id download_dir processed_data_dir output_dir fs =
              local_target_write (os_path_join output_dir ''Probes_trimmed.tsv'') marker_text fs2
            \<and> (\<not> complete (TrimProbesTable dataset_id download_dir processed_data_dir output_dir) fs \<longrightarrow>
                 (\<exists>fs3. TrimProbesTable_run dataset_id download_dir processed_data_dir output_dir fs =
                          (Done, fs3)
                    \<and> read_file fs3 (os_path_join output_dir ''Probes_trimmed.tsv'') = Inr marker_text)))
       \<and> (\<forall>before f remaining fs2 e.
            files = before @ f # remaining
            \<and> trim_files (os_path_join output_dir ''Probes_trimmed.tsv'') before fs1 = (Done, fs2)
            \<and> (read_csv_path f fs2 = Inl e
               \<or> (\<exists>probes_df t. read_csv_path f fs2 = Inr probes_df
                     \<and> df_drop (map Name columns_to_remove) ErrorsIgnore probes_df = Inr t
                     \<and> to_csv t (trimmed_path (os_path_join output_dir ''Probes_trimmed.tsv'') f)
                           fs2 = Inl e)) \<longrightarrow>
            TrimProbesTable_run dataset_id download_dir processed_data_dir output_dir fs =
              (Raised e, fs2)
            \<and> stat fs2 (os_path_join output_dir ''Probes_trimmed.tsv'') =
                stat fs (os_path_join output_dir ''Probes_trimmed.tsv''))"
proof -
  have files: "find_probes_files fs1 processed_data_dir = Inr files" "files \<noteq> []"
    using search makedirs_keeps_search [OF mk] by simp_all
  show ?thesis
  proof (intro conjI allI impI)
  fix fs2
  assume t: "trim_files (os_path_join output_dir ''Probes_trimmed.tsv'') files fs1 = (Done, fs2)"
  show r: "TrimProbesTable_run dataset_id download_dir processed_data_dir output_dir fs =
        local_target_write (os_path_join output_dir ''Probes_trimmed.tsv'') marker_text fs2"
    using mk files t by (simp add: TrimProbesTable_run_def)
  assume "\<not> complete (TrimProbesTable dataset_id download_dir processed_data_dir output_dir) fs"
  then have "stat fs (os_path_join output_dir ''Probes_trimmed.tsv'') = None"
    by (simp add: complete_def os_path_exists_def)
  then have "stat fs1 (os_path_join output_dir ''Probes_trimmed.tsv'') = None"
    using os_makedirs_child [OF mk, of "''Probes_trimmed.tsv''"] by simp
  moreover have names: "\<forall>f \<in> set files. suffix ''_Probes.tsv'' (os_path_basename f)"
    using find_probes_files_names [OF files(1)] by blast
  ultimately have "stat fs2 (os_path_join output_dir ''Probes_trimmed.tsv'') = None"
    using trim_files_keeps_marker [OF names t] by simp
  moreover have "\<exists>es. lookup fs1 (parts output_dir) = Some (Dir es)"
    using os_makedirs_Inr [OF mk] mkdirs_isdir(1) [of "parts output_dir" fs fs1] by simp
  then have "\<exists>es. lookup fs2 (parts output_dir) = Some (Dir es)"
    by (rule trim_files_keeps_output_dir [OF names t])
  ultimately show "\<exists>fs3. TrimProbesTable_run dataset_id download_dir processed_data_dir output_dir fs =
          (Done, fs3)
        \<and> read_file fs3 (os_path_join output_dir ''Probes_trimmed.tsv'') = Inr marker_text"
    using local_target_write_marker [of fs2 output_dir marker_text] os_makedirs_Inr [OF mk] r
    by simp
next
  fix before f remaining fs2 e
  assume a: "files = before @ f # remaining
     \<and> trim_files (os_path_join output_dir ''Probes_trimmed.tsv'') before fs1 = (Done, fs2)
     \<and> (read_csv_path f fs2 = Inl e
        \<or> (\<exists>probes_df t. read_csv_path f fs2 = Inr probes_df
              \<and> df_drop (map Name columns_to_remove) ErrorsIgnore probes_df = Inr t
              \<and> to_csv t (trimmed_path (os_path_join output_dir ''Probes_trimmed.tsv'') f)
                    fs2 = Inl e))"
  then have "trim_files (os_path_join output_dir ''Probes_trimmed.tsv'') (f # remaining) fs2 =
      (Raised e, fs2)"
    using trim_files_load_failure [of f fs2 e] trim_files_write_failure [of f fs2] by blast
  then have t: "trim_files (os_path_join output_dir ''Probes_trimmed.tsv'') files fs1 = (Raised e, fs2)"
    using a trim_files_append [of _ before "f # remaining" fs1] by simp
  then show "TrimProbesTable_run dataset_id download_dir processed_data_dir output_dir fs =
      (Raised e, fs2)"
    using mk files by (simp add: TrimProbesTable_run_def)
  have names: "\<forall>f \<in> set before. suffix ''_Probes.tsv'' (os_path_basename f)"
    using a find_probes_files_names [OF files(1)] by auto
  have "stat fs2 (os_path_join output_dir ''Probes_trimmed.tsv'') =
        stat fs1 (os_path_join output_dir ''Probes_trimmed.tsv'')"
    using trim_files_keeps_marker [OF names] a by blast
  then show "stat fs2 (os_path_join output_dir ''Probes_trimmed.tsv'') =
      stat fs (os_path_join output_dir ''Probes_trimmed.tsv'')"
    using os_makedirs_child [OF mk, of "''Probes_trimmed.tsv''"] by simp
qed
qed

theorem trim_run_stops_at_first_failure_witness:
  "TrimProbesTable_run ''GSE68849'' ''data'' ''processed_data'' ''trimmed_probes''
     (Dir [(''processed_data'', Dir [(''GSM1.txt'', Dir
        [(''GSM1_Probes.tsv'', File False [])])])]) =
     (Raised EmptyDataError,
      Dir [(''processed_data'', Dir [(''GSM1.txt'', Dir [(''GSM1_Probes.tsv'', File False [])])]),
           (''trimmed_probes'', Dir [])])
   \<and> TrimProbesTable_run ''GSE68849'' ''data'' ''processed_data'' ''trimmed_probes''
       (Dir [(''processed_data'', Dir [(''GSM1_Probes.tsv'', File False (''ID_REF'' @ [NL]))]),
             (''trimmed_probes'', Dir [(''GSM1_trimmed_Probes.tsv'', File True [])])]) =
     (Raised (OSError EPERM ''trimmed_probes/GSM1_trimmed_Probes.tsv''),
      Dir [(''processed_data'', Dir [(''GSM1_Probes.tsv'', File False (''ID_REF'' @ [NL]))]),
           (''trimmed_probes'', Dir [(''GSM1_trimmed_Probes.tsv'', File True [])])])
   \<and> (\<exists>fs3. TrimProbesTable_run ''GSE68849'' ''data'' ''processed_data'' ''trimmed_probes''
         (Dir [(''processed_data'', Dir [(''GSM1.txt'', Dir
            [(''GSM1_Probes.tsv'', File False (''ID_REF'' @ [TAB] @ ''Definition'' @ [NL] @
                                               ''1'' @ [TAB] @ ''foo'' @ [NL]))])])]) = (Done, fs3)
         \<and> read_file fs3 ''trimmed_probes/Probes_trimmed.tsv'' =
             Inr (''Trimmed Probes processing completed.'' @ [NL]))"
proof -
  define locked where "locked =
    Dir [(''processed_data'', Dir [(''GSM1_Probes.tsv'', File False (''ID_REF'' @ [NL]))]),
         (''trimmed_probes'', Dir [(''GSM1_trimmed_Probes.tsv'', File True [])])]"
  define g where "g = ''processed_data/GSM1_Probes.tsv''"
  have ml: "os_makedirs ''trimmed_probes'' locked = Inr locked"
    unfolding locked_def by code_simp
  have fl: "find_probes_files locked ''processed_data'' = Inr [g]"
    unfolding locked_def g_def by code_simp
  have rl: "read_csv_path g locked = Inr \<lparr>columns = [Name ''ID_REF''], rows = []\<rparr>"
    unfolding locked_def g_def by code_simp
  have dl: "df_drop (map Name columns_to_remove) ErrorsIgnore
              \<lparr>columns = [Name ''ID_REF''], rows = []\<rparr> =
            Inr \<lparr>columns = [Name ''ID_REF''], rows = []\<rparr>"
    by code_simp
  have wl: "to_csv \<lparr>columns = [Name ''ID_REF''], rows = []\<rparr>
              (trimmed_path (os_path_join ''trimmed_probes'' ''Probes_trimmed.tsv'') g) locked =
            Inl (OSError EPERM ''trimmed_probes/GSM1_trimmed_Probes.tsv'')"
    unfolding locked_def g_def by code_simp
  have sl: "[g] = [] @ g # []
     \<and> trim_files (os_path_join ''trimmed_probes'' ''Probes_trimmed.tsv'') [] locked = (Done, locked)
     \<and> (read_csv_path g locked = Inl (OSError EPERM ''trimmed_probes/GSM1_trimmed_Probes.tsv'')
        \<or> (\<exists>probes_df t. read_csv_path g locked = Inr probes_df
              \<and> df_drop (map Name columns_to_remove) ErrorsIgnore probes_df = Inr t
              \<and> to_csv t (trimmed_path (os_path_join ''trimmed_probes'' ''Probes_trimmed.tsv'') g)
                    locked = Inl (OSError EPERM ''trimmed_probes/GSM1_trimmed_Probes.tsv'')))"
    using rl dl wl by simp
  have 3: "TrimProbesTable_run ''GSE68849'' ''data'' ''processed_data'' ''trimmed_probes'' locked =
             (Raised (OSError EPERM ''trimmed_probes/GSM1_trimmed_Probes.tsv''), locked)"
    using trim_run_stops_at_first_failure [OF ml fl, where dataset_id = "''GSE68849''"
        and download_dir = "''data''", THEN conjunct2, rule_format, OF _ sl]
    by simp
  define bad where "bad = Dir [(''processed_data'', Dir [(''GSM1.txt'', Dir
        [(''GSM1_Probes.tsv'', File False [])])])]"
  define bad1 where "bad1 = Dir [(''processed_data'', Dir [(''GSM1.txt'', Dir
        [(''GSM1_Probes.tsv'', File False [])])]), (''trimmed_probes'', Dir [])]"
  define good where "good = Dir [(''processed_data'', Dir [(''GSM1.txt'', Dir
        [(''GSM1_Probes.tsv'', File False (''ID_REF'' @ [TAB] @ ''Definition'' @ [NL] @
                                           ''1'' @ [TAB] @ ''foo'' @ [NL]))])])]"
  define good1 where "good1 = Dir [(''processed_data'', Dir [(''GSM1.txt'', Dir
        [(''GSM1_Probes.tsv'', File False (''ID_REF'' @ [TAB] @ ''Definition'' @ [NL] @
                                           ''1'' @ [TAB] @ ''foo'' @ [NL]))])]),
        (''trimmed_probes'', Dir [])]"
  define good2 where "good2 = Dir [(''processed_data'', Dir [(''GSM1.txt'', Dir
        [(''GSM1_Probes.tsv'', File False (''ID_REF'' @ [TAB] @ ''Definition'' @ [NL] @
                                           ''1'' @ [TAB] @ ''foo'' @ [NL]))])]),
        (''trimmed_probes'', Dir [(''GSM1_trimmed_Probes.tsv'',
                                    File False (''ID_REF'' @ [NL] @ ''1'' @ [NL]))])]"
  define f where "f = ''processed_data/GSM1.txt/GSM1_Probes.tsv''"
  have j: "os_path_join ''trimmed_probes'' ''Probes_trimmed.tsv'' = ''trimmed_probes/Probes_trimmed.tsv''"
    by code_simp
  have ne: "[f] \<noteq> []" by simp
  have mb: "os_makedirs ''trimmed_probes'' bad = Inr bad1"
    unfolding bad_def bad1_def by code_simp
  have fb: "find_probes_files bad ''processed_data'' = Inr [f]"
    unfolding bad_def f_def by code_simp
  have rb: "read_csv_path f bad1 = Inl EmptyDataError"
    unfolding bad1_def f_def by code_simp
  have sb: "[f] = [] @ f # []
     \<and> trim_files (os_path_join ''trimmed_probes'' ''Probes_trimmed.tsv'') [] bad1 = (Done, bad1)
     \<and> (read_csv_path f bad1 = Inl EmptyDataError
        \<or> (\<exists>probes_df t. read_csv_path f bad1 = Inr probes_df
              \<and> df_drop (map Name columns_to_remove) ErrorsIgnore probes_df = Inr t
              \<and> to_csv t (trimmed_path (os_path_join ''trimmed_probes'' ''Probes_trimmed.tsv'') f)
                    bad1 = Inl EmptyDataError))"
    using rb by simp
  have 1: "TrimProbesTable_run ''GSE68849'' ''data'' ''processed_data'' ''trimmed_probes'' bad =
             (Raised EmptyDataError, bad1)"
    using trim_run_stops_at_first_failure [OF mb fb ne, where dataset_id = "''GSE68849''"
        and download_dir = "''data''", THEN conjunct2, rule_format, OF sb]
    by simp
  have mg: "os_makedirs ''trimmed_probes'' good = Inr good1"
    unfolding good_def good1_def by code_simp
  have fg: "find_probes_files good ''processed_data'' = Inr [f]"
    unfolding good_def f_def by code_simp
  have tg: "trim_files ''trimmed_probes/Probes_trimmed.tsv'' [f] good1 = (Done, good2)"
    unfolding good1_def good2_def f_def by code_simp
  have ng: "\<not> complete (TrimProbesTable ''GSE68849'' ''data'' ''processed_data'' ''trimmed_probes'')
              good"
    unfolding good_def by code_simp
  have tg': "trim_files (os_path_join ''trimmed_probes'' ''Probes_trimmed.tsv'') [f] good1 =
               (Done, good2)"
    using tg by (simp only: j)
  have "\<exists>fs3. TrimProbesTable_run ''GSE68849'' ''data'' ''processed_data'' ''trimmed_probes'' good =
               (Done, fs3)
             \<and> read_file fs3 (os_path_join ''trimmed_probes'' ''Probes_trimmed.tsv'') = Inr marker_text"
    by (rule trim_run_stops_at_first_failure [OF mg fg ne, where dataset_id = "''GSE68849''"
        and download_dir = "''data''", THEN conjunct1, rule_format, OF tg',
        THEN conjunct2, THEN mp, OF ng])
  then have 2: "\<exists>fs3. TrimProbesTable_run ''GSE68849'' ''data'' ''processed_data'' ''trimmed_probes'' good =
               (Done, fs3)
             \<and> read_file fs3 ''trimmed_probes/Probes_trimmed.tsv'' = Inr marker_text"
    by (simp only: j)
  show ?thesis
    using 1 2 3 by (simp add: bad_def bad1_def good_def locked_def marker_text_def)
qed

section \<open>SectionParser\<close>

lemma map_of_dict_set: "map_of (dict_set k v d) = (map_of d)(k \<mapsto> v)"
  by (induction d) (auto simp: fun_eq_iff)

lemma keys_dict_set: "fst ` set (dict_set k v d) = insert k (fst ` set d)"
  by (induction d) force+

lemma distinct_dict_set: "distinct (map fst d) \<Longrightarrow> distinct (map fst (dict_set k v d))"
proof (induction d)
  case Nil
  then show ?case by simp
next
  case (Cons a d)
  obtain k' v' where a: "a = (k', v')" by (cases a)
  show ?case
  proof (cases "k' = k")
    case True
    then show ?thesis using Cons.prems by (simp add: a)
  next
    case False
    have "k' \<notin> fst ` set (dict_set k v d)"
      using Cons.prems False by (simp add: a keys_dict_set)
    then show ?thesis
      using Cons False by (simp add: a)
  qed
qed

lemma process_lines_append:
  "process_lines st (xs @ ys) =
     (case process_lines st xs of Inl e \<Rightarrow> Inl e | Inr st' \<Rightarrow> process_lines st' ys)"
  by (induction xs arbitrary: st) (auto split: sum.splits)

lemma process_lines_body:
  assumes "\<forall>l \<in> set body. \<not> startswith l ''[''"
  shows "process_lines st body =
           Inr (if truthy (write_key st) then st\<lparr>fio := fio st @ concat body\<rparr> else st)"
  using assms by (induction body arbitrary: st) (auto simp: process_line_def)

lemma process_line_header:
  assumes "startswith h ''[''" and "process_line st h = Inr st'"
  shows "write_key st' = Some (strip (''[]'' @ [NL]) h) \<and> fio st' = []"
  using assms by (auto simp: process_line_def split: sum.splits)

lemma process_line_section:
  assumes "startswith p ''[''" and "write_key st = Some key" and "key \<noteq> []"
  shows "process_line st p =
           (case read_csv (if key = ''Heading'' then NoHeader else Infer) (fio st) of
              Inl e \<Rightarrow> Inl e
            | Inr df \<Rightarrow> Inr \<lparr>write_key = Some (strip (''[]'' @ [NL]) p), fio = [],
                            dfs = dict_set key df (dfs st)\<rparr>)"
  using assms by (auto simp: process_line_def assign_table_def split: sum.splits)

lemma finish_section:
  assumes "write_key st = Some key" and "key \<noteq> []"
  shows "finish st =
           (case read_csv Infer (fio st) of
              Inl e \<Rightarrow> Inl e
            | Inr df \<Rightarrow> Inr (dict_set key df (dfs st)))"
  using assms by (auto simp: finish_def assign_table_def split: sum.splits)

lemma section_state:
  assumes "startswith h ''[''" and "strip (''[]'' @ [NL]) h = key" and "key \<noteq> []"
    and "\<forall>l \<in> set body. \<not> startswith l ''[''"
    and "process_lines st0 (pre @ [h]) = Inr st"
  shows "process_lines st0 (pre @ h # body) = Inr (st\<lparr>fio := concat body\<rparr>)"
    and "write_key st = Some key"
proof -
  obtain st1 where 1: "process_lines st0 pre = Inr st1" and 2: "process_line st1 h = Inr st"
    using assms(5) by (auto simp: process_lines_append split: sum.splits)
  have k: "write_key st = Some key \<and> fio st = []"
    using process_line_header [OF assms(1) 2] assms(2) by simp
  then show "write_key st = Some key" by simp
  have "process_lines st0 (pre @ h # body) = process_lines st body"
    using 1 2 by (simp add: process_lines_append)
  then show "process_lines st0 (pre @ h # body) = Inr (st\<lparr>fio := concat body\<rparr>)"
    using k assms(3,4) by (simp add: process_lines_body truthy_def)
qed

text \<open>
  How a section is read. The lines before it and its own \<^verbatim>\<open>[\<close>-line \<open>h\<close> have been
  processed into the state \<open>st\<close>; \<open>body\<close> are the lines of the section. When a further
  \<^verbatim>\<open>[\<close>-line \<open>p\<close> follows, the buffer is read without a header row exactly for the key
  \<^verbatim>\<open>Heading\<close>; when the input ends, it is read with the inferred header for every key.
\<close>

lemma section_read:
  assumes "startswith h ''[''" and "strip (''[]'' @ [NL]) h = key" and "key \<noteq> []"
    and "\<forall>l \<in> set body. \<not> startswith l ''[''"
    and "startswith p ''[''"
    and "process_lines initial_state (pre @ [h]) = Inr st"
  shows "process_lines initial_state (pre @ h # body @ [p]) =
           (case read_csv (if key = ''Heading'' then NoHeader else Infer) (concat body) of
              Inl e \<Rightarrow> Inl e
            | Inr df \<Rightarrow> Inr \<lparr>write_key = Some (strip (''[]'' @ [NL]) p), fio = [],
                            dfs = dict_set key df (dfs st)\<rparr>)
         \<and> parse_sections (pre @ h # body) =
           (case read_csv Infer (concat body) of
              Inl e \<Rightarrow> Inl e
            | Inr df \<Rightarrow> Inr (dict_set key df (dfs st)))"
proof -
  note s = section_state [OF assms(1,2,3,4,6)]
  have "process_lines initial_state (pre @ h # body @ [p]) =
          process_lines initial_state ((pre @ h # body) @ [p])"
    by simp
  also have "\<dots> = process_line (st\<lparr>fio := concat body\<rparr>) p"
    using process_lines_append [of initial_state "pre @ h # body" "[p]"]
    by (simp add: s(1) split: sum.splits)
  finally have "process_lines initial_state (pre @ h # body @ [p]) =
      process_line (st\<lparr>fio := concat body\<rparr>) p" .
  moreover have "parse_sections (pre @ h # body) = finish (st\<lparr>fio := concat body\<rparr>)"
    by (simp add: parse_sections_def s(1))
  ultimately show ?thesis
    using s(2) assms(3,5)
    by (simp add: process_line_section [where key = key] finish_section [where key = key]
        split: sum.splits)
qed

text \<open>
  Claim C3. A section with the key \<^verbatim>\<open>Heading\<close> that a later \<^verbatim>\<open>[\<close>-line ends is parsed
  with \<^verbatim>\<open>header=None\<close>; the last section of the file, ended by the end of the input, is
  parsed with the inferred header row, also when its key is \<^verbatim>\<open>Heading\<close>. (The theorem
  is for every non-empty key: mid-file only \<^verbatim>\<open>Heading\<close> loses its header row, at the end
  of the input no key does.)
\<close>

theorem heading_header_omitted_only_mid_file:
  assumes "startswith h ''[''" and "strip (''[]'' @ [NL]) h = key" and "key \<noteq> []"
    and "\<forall>l \<in> set body. \<not> startswith l ''[''"
    and "startswith p ''[''"
    and "process_lines initial_state (pre @ [h]) = Inr st"
  shows "process_lines initial_state (pre @ h # body @ [p]) =
           (case read_csv (if key = ''Heading'' then NoHeader else Infer) (concat body) of
              Inl e \<Rightarrow> Inl e
            | Inr df \<Rightarrow> Inr \<lparr>write_key = Some (strip (''[]'' @ [NL]) p), fio = [],
                            dfs = dict_set key df (dfs st)\<rparr>)
         \<and> parse_sections (pre @ h # body) =
           (case read_csv Infer (concat body) of
              Inl e \<Rightarrow> Inl e
            | Inr df \<Rightarrow> Inr (dict_set key df (dfs st)))"
  using assms by (rule section_read)

theorem heading_header_omitted_only_mid_file_witness:
  "process_lines initial_state
     [''[Heading]'' @ [NL], ''a'' @ [TAB] @ ''b'' @ [NL], ''[Probes]'' @ [NL]] =
     Inr \<lparr>write_key = Some ''Probes'', fio = [],
          dfs = [(''Heading'', \<lparr>columns = [Pos 0, Pos 1], rows = [[''a'', ''b'']]\<rparr>)]\<rparr>
   \<and> parse_sections [''[Heading]'' @ [NL], ''a'' @ [TAB] @ ''b'' @ [NL]] =
     Inr [(''Heading'', \<lparr>columns = [Name ''a'', Name ''b''], rows = []\<rparr>)]"
proof -
  define h where "h = ''[Heading]'' @ [NL]"
  define b where "b = ''a'' @ [TAB] @ ''b'' @ [NL]"
  define p where "p = ''[Probes]'' @ [NL]"
  have 1: "startswith h ''[''" unfolding h_def by code_simp
  have 2: "strip (''[]'' @ [NL]) h = ''Heading''" unfolding h_def by code_simp
  have 3: "''Heading'' \<noteq> []" by simp
  have 4: "\<forall>l \<in> set [b]. \<not> startswith l ''[''" unfolding b_def by code_simp
  have 5: "startswith p ''[''" unfolding p_def by code_simp
  have 6: "process_lines initial_state ([] @ [h]) =
             Inr \<lparr>write_key = Some ''Heading'', fio = [], dfs = []\<rparr>"
    unfolding h_def by code_simp
  have e1: "read_csv NoHeader b = Inr \<lparr>columns = [Pos 0, Pos 1], rows = [[''a'', ''b'']]\<rparr>"
    unfolding b_def by code_simp
  have e2: "read_csv Infer b = Inr \<lparr>columns = [Name ''a'', Name ''b''], rows = []\<rparr>"
    unfolding b_def by code_simp
  have e3: "strip [CHR ''['', CHR '']'', NL] p = ''Probes''" unfolding p_def by code_simp
  have "process_lines initial_state [h, b, p] =
          Inr \<lparr>write_key = Some ''Probes'', fio = [],
               dfs = [(''Heading'', \<lparr>columns = [Pos 0, Pos 1], rows = [[''a'', ''b'']]\<rparr>)]\<rparr>
        \<and> parse_sections [h, b] =
          Inr [(''Heading'', \<lparr>columns = [Name ''a'', Name ''b''], rows = []\<rparr>)]"
    using heading_header_omitted_only_mid_file [OF 1 2 3 4 5 6]
    by (simp add: e1 e2 e3)
  then show ?thesis by (simp only: h_def b_def p_def)
qed

lemma process_line_keeps_other:
  assumes "write_key st \<noteq> Some key"
    and "startswith l ''['' \<longrightarrow> strip (''[]'' @ [NL]) l \<noteq> key"
    and "process_line st l = Inr st'"
  shows "map_of (dfs st') key = map_of (dfs st) key \<and> write_key st' \<noteq> Some key"
  using assms
  by (auto simp: process_line_def assign_table_def map_of_dict_set
      split: if_splits sum.splits option.splits)

lemma process_lines_keeps_other:
  assumes "write_key st \<noteq> Some key"
    and "\<forall>l \<in> set ls. startswith l ''['' \<longrightarrow> strip (''[]'' @ [NL]) l \<noteq> key"
    and "process_lines st ls = Inr st'"
  shows "map_of (dfs st') key = map_of (dfs st) key \<and> write_key st' \<noteq> Some key"
  using assms
proof (induction ls arbitrary: st)
  case Nil
  then show ?case by simp
next
  case (Cons l ls)
  from Cons.prems(3) obtain st1 where 1: "process_line st l = Inr st1"
    and 2: "process_lines st1 ls = Inr st'"
    by (auto split: sum.splits)
  have "map_of (dfs st1) key = map_of (dfs st) key \<and> write_key st1 \<noteq> Some key"
    using process_line_keeps_other [OF Cons.prems(1) _ 1] Cons.prems(2) by simp
  then show ?case
    using Cons.IH [of st1] Cons.prems(2) 2 by simp
qed

lemma finish_keeps_other:
  assumes "write_key st \<noteq> Some key" and "finish st = Inr d"
  shows "map_of d key = map_of (dfs st) key"
  using assms
  by (auto simp: finish_def assign_table_def map_of_dict_set
      split: if_splits sum.splits option.splits)

lemma process_line_distinct:
  "distinct (map fst (dfs st)) \<Longrightarrow> process_line st l = Inr st' \<Longrightarrow> distinct (map fst (dfs st'))"
  by (auto simp: process_line_def assign_table_def distinct_dict_set
      split: if_splits sum.splits option.splits)

lemma process_lines_distinct:
  "distinct (map fst (dfs st)) \<Longrightarrow> process_lines st ls = Inr st' \<Longrightarrow> distinct (map fst (dfs st'))"
proof (induction ls arbitrary: st)
  case Nil
  then show ?case by simp
next
  case (Cons l ls)
  then show ?case
    by (auto split: sum.splits dest: process_line_distinct)
qed

lemma parse_sections_distinct:
  assumes "parse_sections ls = Inr d"
  shows "distinct (map fst d)"
proof -
  obtain st where 1: "process_lines initial_state ls = Inr st" and 2: "finish st = Inr d"
    using assms by (auto simp: parse_sections_def split: sum.splits)
  have "distinct (map fst (dfs st))"
    using process_lines_distinct [OF _ 1] by (simp add: initial_state_def)
  then show ?thesis
    using 2 by (auto simp: finish_def assign_table_def distinct_dict_set
        split: if_splits sum.splits option.splits)
qed

text \<open>
  The dictionary after a parse. \<open>h\<close> opens the last section with the key \<open>key\<close>: no
  \<^verbatim>\<open>[\<close>-line after its body has that key, while the lines before it may hold any
  number of earlier sections with it. If the lines parse, the dictionary holds for
  \<open>key\<close> the table read from the body of this last section, and it holds one entry
  for each key.
\<close>

lemma last_section_in_dict:
  assumes "startswith h ''[''" and "strip (''[]'' @ [NL]) h = key" and "key \<noteq> []"
    and "\<forall>l \<in> set body. \<not> startswith l ''[''"
    and "post = [] \<or> startswith (hd post) ''[''"
    and "\<forall>l \<in> set post. startswith l ''['' \<longrightarrow> strip (''[]'' @ [NL]) l \<noteq> key"
    and "parse_sections (pre @ h # body @ post) = Inr d"
  shows "\<exists>df. read_csv (if post \<noteq> [] \<and> key = ''Heading'' then NoHeader else Infer) (concat body)
              = Inr df
           \<and> map_of d key = Some df
           \<and> distinct (map fst d)"
proof -
  have dd: "distinct (map fst d)"
    using assms(7) by (rule parse_sections_distinct)
  obtain st9 where all: "process_lines initial_state (pre @ h # body @ post) = Inr st9"
    and fin: "finish st9 = Inr d"
    using assms(7) by (auto simp: parse_sections_def split: sum.splits)
  have "process_lines initial_state ((pre @ [h]) @ body @ post) = Inr st9"
    using all by simp
  then obtain st where st: "process_lines initial_state (pre @ [h]) = Inr st"
    unfolding process_lines_append by (auto split: sum.splits)
  show ?thesis
  proof (cases post)
    case Nil
    have "parse_sections (pre @ h # body) = Inr d"
      using assms(7) Nil by simp
    then obtain df where r: "read_csv Infer (concat body) = Inr df"
      and d: "d = dict_set key df (dfs st)"
      using section_read [OF assms(1,2,3,4) _ st, of h] assms(1)
      by (auto split: sum.splits)
    have "map_of d key = Some df"
      by (simp add: d map_of_dict_set)
    then show ?thesis using r Nil dd by simp
  next
    case (Cons p rest)
    have p: "startswith p ''[''" and pk: "strip (''[]'' @ [NL]) p \<noteq> key"
      using assms(5,6) Cons by auto
    have "process_lines initial_state ((pre @ h # body @ [p]) @ rest) = Inr st9"
      using all Cons by simp
    then obtain st2 where 2: "process_lines initial_state (pre @ h # body @ [p]) = Inr st2"
      and 3: "process_lines st2 rest = Inr st9"
      unfolding process_lines_append by (auto split: sum.splits)
    from 2 obtain df where
      r: "read_csv (if key = ''Heading'' then NoHeader else Infer) (concat body) = Inr df"
      and s2: "st2 = \<lparr>write_key = Some (strip (''[]'' @ [NL]) p), fio = [],
                      dfs = dict_set key df (dfs st)\<rparr>"
      using section_read [OF assms(1,2,3,4) p st]
      by (auto split: sum.splits)
    have k2: "write_key st2 \<noteq> Some key" using pk by (simp add: s2)
    have "map_of (dfs st9) key = map_of (dfs st2) key \<and> write_key st9 \<noteq> Some key"
      using process_lines_keeps_other [OF k2 _ 3] assms(6) Cons by simp
    then have "map_of d key = map_of (dfs st2) key"
      using finish_keeps_other [OF _ fin] by simp
    then have "map_of d key = Some df"
      by (simp add: s2 map_of_dict_set)
    then show ?thesis using r Cons dd by auto
  qed
qed

text \<open>
  The loop over \<^verbatim>\<open>dfs.items()\<close> writes the table of a key to the file of that key, and a
  later write of the loop does not touch it: the file of another key is another
  entry of the directory, or lies below a directory of that name, which a regular file
  is not.
\<close>

lemma modify_ancestor_before:
  "modify f cs n = Inr n' \<Longrightarrow> strict_prefix q cs \<Longrightarrow> \<exists>d. lookup n q = Some (Dir d)"
  "modify_in f c cs es = Inr es' \<Longrightarrow> strict_prefix q cs \<Longrightarrow>
     \<exists>d. lookup_in es c q = Some (Dir d)"
proof (induction f cs n and f c cs es arbitrary: n' q and es' q rule: modify_modify_in.induct)
  case (3 f c cs es)
  then show ?case by (cases q) (auto split: sum.splits)
next
  case (4 f c cs)
  then show ?case by (auto split: sum.splits option.splits if_splits)
next
  case (5 f c cs k n es)
  then show ?case by (auto split: sum.splits option.splits if_splits)
qed auto

lemma write_file_stat:
  assumes "write_file p s fs = Inr fs'"
  shows "\<exists>l. stat fs' p = Some (File l s)"
  using write_file_read [OF assms]
  by (auto simp: read_file_def split: if_splits option.splits node.splits)

lemma splitext_fst_subset: "set (fst (os_path_splitext p)) \<subseteq> set p"
  by (auto simp: os_path_splitext_def Let_def dest: in_set_takeD)

lemma table_file_name_facts:
  shows "table_file_name fp k \<noteq> []"
    and "\<not> startswith (table_file_name fp k) ''/''"
    and "suffix ''.tsv'' (table_file_name fp k)"
proof -
  define base where "base = fst (os_path_splitext (os_path_basename fp))"
  have nb: "CHR ''/'' \<notin> set base"
    using splitext_fst_subset [of "os_path_basename fp"] basename_no_slash [of fp]
    by (auto simp: base_def)
  have n: "table_file_name fp k = base @ ''_'' @ k @ ''.tsv''"
    by (simp add: table_file_name_def base_def)
  show "table_file_name fp k \<noteq> []" by (simp add: n)
  show "\<not> startswith (table_file_name fp k) ''/''"
    using nb by (cases base) (auto simp: n startswith_def)
  show "suffix ''.tsv'' (table_file_name fp k)"
    by (simp add: n suffix_def)
qed

lemma table_path_parts:
  "parts (table_path fp k) = parts (os_path_dirname fp) @ parts (table_file_name fp k)"
  by (simp add: table_path_def parts_join table_file_name_facts(2))

lemma parts_tsv_last:
  assumes "suffix ''.tsv'' z"
  shows "\<exists>ws w. parts z = ws @ [w]"
proof -
  have s: "suffix ''.tsv'' (os_path_basename z)"
    using assms by (rule basename_suffix) simp
  then have "4 \<le> length (os_path_basename z)"
    using suffix_length_le by fastforce
  then have "os_path_basename z \<noteq> []" "os_path_basename z \<noteq> ''.''"
    by auto
  then have "parts (os_path_basename z) = [os_path_basename z]"
    using basename_no_slash [of z] by (simp add: parts_name)
  then show ?thesis
    using parts_dirname_basename [of z] by auto
qed

lemma table_file_name_parts:
  shows "CHR ''/'' \<notin> set k \<Longrightarrow> parts (table_file_name fp k) = [table_file_name fp k]"
    and "CHR ''/'' \<in> set k \<Longrightarrow> \<exists>x r rs. parts (table_file_name fp k) = x # r # rs"
proof -
  define base where "base = fst (os_path_splitext (os_path_basename fp))"
  have nb: "CHR ''/'' \<notin> set base"
    using splitext_fst_subset [of "os_path_basename fp"] basename_no_slash [of fp]
    by (auto simp: base_def)
  have n: "table_file_name fp k = base @ ''_'' @ k @ ''.tsv''"
    by (simp add: table_file_name_def base_def)
  {
    assume "CHR ''/'' \<notin> set k"
    then have "CHR ''/'' \<notin> set (table_file_name fp k)"
      using nb by (simp add: n)
    moreover have "5 \<le> length (table_file_name fp k)" by (simp add: n)
    then have "table_file_name fp k \<noteq> []" "table_file_name fp k \<noteq> ''.''" by auto
    ultimately show "parts (table_file_name fp k) = [table_file_name fp k]"
      by (simp add: parts_name)
  }
  {
    assume "CHR ''/'' \<in> set k"
    then obtain k1 k2 where k: "k = k1 @ CHR ''/'' # k2" and k1: "CHR ''/'' \<notin> set k1"
      by (meson split_list_first)
    define x where "x = base @ ''_'' @ k1"
    have x: "x \<noteq> []" "x \<noteq> ''.''" "CHR ''/'' \<notin> set x"
      using nb k1 by (auto simp: x_def) (cases base; simp)+
    have "table_file_name fp k = x @ CHR ''/'' # (k2 @ ''.tsv'')"
      using n by (simp add: k x_def)
    then have "parts (table_file_name fp k) = [x] @ parts (k2 @ ''.tsv'')"
      using x by (simp add: parts_append_slash parts_name)
    moreover obtain ws w where "parts (k2 @ ''.tsv'') = ws @ [w]"
      using parts_tsv_last [of "k2 @ ''.tsv''"] by (auto simp: suffix_def)
    ultimately show "\<exists>x r rs. parts (table_file_name fp k) = x # r # rs"
      by (cases ws) auto
  }
qed

lemma table_file_name_inj: "table_file_name fp k = table_file_name fp k' \<Longrightarrow> k = k'"
  by (simp add: table_file_name_def)

lemma to_csv_keeps_table:
  assumes "to_csv v (table_path fp k) fs = Inr fs1"
    and "k \<noteq> key" and "CHR ''/'' \<notin> set key"
    and "stat fs (table_path fp key) = Some (File l c)"
  shows "stat fs1 (table_path fp key) = Some (File l c)"
proof -
  define D where "D = parts (os_path_dirname fp)"
  define nk where "nk = table_file_name fp key"
  have pk: "parts (table_path fp key) = D @ [nk]"
    using assms(3) by (simp add: table_path_parts table_file_name_parts(1) D_def nk_def)
  have ne: "table_path fp key \<noteq> []"
    by (simp add: table_path_def join_name_nonempty table_file_name_facts(1))
  have w: "write_file (table_path fp k) (csv_text v) fs = Inr fs1"
    using assms(1) by (simp add: to_csv_def)
  have look: "lookup fs (D @ [nk]) = Some (File l c)"
    using assms(4) ne by (simp add: stat_def pk)
  have unrelated: "\<not> prefix (parts (table_path fp k)) (D @ [nk]) \<and>
                   \<not> prefix (D @ [nk]) (parts (table_path fp k))"
  proof (cases "CHR ''/'' \<in> set k")
    case False
    then have "parts (table_path fp k) = D @ [table_file_name fp k]"
      by (simp add: table_path_parts table_file_name_parts(1) D_def)
    moreover have "table_file_name fp k \<noteq> nk"
      using assms(2) table_file_name_inj by (auto simp: nk_def)
    ultimately show ?thesis by simp
  next
    case True
    then obtain x r rs where p: "parts (table_path fp k) = D @ x # r # rs"
      using table_file_name_parts(2) [of k fp] by (auto simp: table_path_parts D_def)
    show ?thesis
    proof (cases "x = nk")
      case False
      then show ?thesis by (simp add: p)
    next
      case True
      have "modify (\<lambda>cur. case cur of None \<Rightarrow> Inr (Some (File False (csv_text v)))
                 | Some (File l old) \<Rightarrow> if l then Inl EPERM else Inr (Some (File l (csv_text v)))
                 | Some (Dir es) \<Rightarrow> Inl EISDIR) (D @ nk # r # rs) fs = Inr fs1"
        using write_file_Inr [OF w] True by (simp add: p)
      moreover have "strict_prefix (D @ [nk]) (D @ nk # r # rs)"
        by (simp add: strict_prefix_def)
      ultimately have "\<exists>d. lookup fs (D @ [nk]) = Some (Dir d)"
        by (rule modify_ancestor_before(1))
      then show ?thesis using look by simp
    qed
  qed
  then have "stat fs1 (table_path fp key) = stat fs (table_path fp key)"
    using ne by (intro write_file_other [OF w]) (simp_all add: pk)
  then show ?thesis using assms(4) by simp
qed

lemma save_tables_keeps_table:
  assumes "key \<notin> fst ` set d" and "CHR ''/'' \<notin> set key"
    and "stat fs (table_path fp key) = Some (File l c)"
    and "save_tables fp d fs = (Done, fs')"
  shows "stat fs' (table_path fp key) = Some (File l c)"
  using assms
proof (induction d arbitrary: fs)
  case Nil
  then show ?case by simp
next
  case (Cons a d)
  obtain k v where a: "a = (k, v)" by (cases a)
  obtain fs1 where w: "to_csv v (table_path fp k) fs = Inr fs1"
    and r: "save_tables fp d fs1 = (Done, fs')"
    using Cons.prems(4) by (auto simp: a split: sum.splits)
  have "stat fs1 (table_path fp key) = Some (File l c)"
    using to_csv_keeps_table [OF w _ Cons.prems(2,3)] Cons.prems(1) by (auto simp: a)
  then show ?case
    using Cons.IH [of fs1] Cons.prems(1,2) r by (simp add: a)
qed

lemma save_tables_persists:
  assumes "distinct (map fst d)" and "map_of d key = Some df" and "CHR ''/'' \<notin> set key"
    and "save_tables fp d fs = (Done, fs')"
  shows "read_file fs' (table_path fp key) = Inr (csv_text df)"
  using assms
proof (induction d arbitrary: fs)
  case Nil
  then show ?case by simp
next
  case (Cons a d)
  obtain k v where a: "a = (k, v)" by (cases a)
  obtain fs1 where w: "to_csv v (table_path fp k) fs = Inr fs1"
    and r: "save_tables fp d fs1 = (Done, fs')"
    using Cons.prems(4) by (auto simp: a split: sum.splits)
  show ?case
  proof (cases "k = key")
    case True
    then have v: "v = df" using Cons.prems(2) by (simp add: a)
    have "key \<notin> fst ` set d" using Cons.prems(1) True by (simp add: a)
    moreover have wf: "write_file (table_path fp key) (csv_text df) fs = Inr fs1"
      using w True v by (simp add: to_csv_def)
    then obtain l where "stat fs1 (table_path fp key) = Some (File l (csv_text df))"
      using write_file_stat by blast
    ultimately have "stat fs' (table_path fp key) = Some (File l (csv_text df))"
      using save_tables_keeps_table [OF _ Cons.prems(3) _ r] by simp
    then show ?thesis using write_file_Inr [OF wf] by (simp add: read_file_def)
  next
    case False
    then have "map_of d key = Some df" using Cons.prems(2) by (simp add: a)
    then show ?thesis
      using Cons.IH [of fs1] Cons.prems(1,3) r by (simp add: a)
  qed
qed

text \<open>
  Claim C9. In the file \<open>file_path\<close>, \<open>h\<close> opens the last section with the key \<open>key\<close>;
  the lines before it may hold any number of earlier sections with that key. If
  \<^verbatim>\<open>process_file\<close> succeeds, the one entry the dictionary holds for \<open>key\<close> is the
  table read from the body of this last section, and that table is what the file of
  the key holds afterwards (for a key without \<^verbatim>\<open>/\<close>, whose file name is a plain name in
  the directory of \<open>file_path\<close>).
\<close>

theorem later_section_overwrites_earlier:
  assumes "startswith h ''[''" and "strip (''[]'' @ [NL]) h = key" and "key \<noteq> []"
    and "\<forall>l \<in> set body. \<not> startswith l ''[''"
    and "post = [] \<or> startswith (hd post) ''[''"
    and "\<forall>l \<in> set post. startswith l ''['' \<longrightarrow> strip (''[]'' @ [NL]) l \<noteq> key"
    and "read_file fs file_path = Inr s"
    and "readlines (universal_newlines s) = pre @ h # body @ post"
    and "process_file file_path fs = (Done, fs')"
  shows "\<exists>df d. read_csv (if post \<noteq> [] \<and> key = ''Heading'' then NoHeader else Infer)
                  (concat body) = Inr df
           \<and> parse_sections (pre @ h # body @ post) = Inr d
           \<and> map_of d key = Some df
           \<and> distinct (map fst d)
           \<and> (CHR ''/'' \<notin> set key \<longrightarrow>
                read_file fs' (table_path file_path key) = Inr (csv_text df))"
proof -
  obtain d where p: "parse_sections (pre @ h # body @ post) = Inr d"
    and sv: "save_tables file_path d fs = (Done, fs')"
    using assms(7,8,9) by (auto simp: process_file_def split: sum.splits)
  obtain df where
    r: "read_csv (if post \<noteq> [] \<and> key = ''Heading'' then NoHeader else Infer) (concat body)
          = Inr df"
    and m: "map_of d key = Some df" and dd: "distinct (map fst d)"
    using last_section_in_dict [OF assms(1,2,3,4,5,6) p] by blast
  have "CHR ''/'' \<notin> set key \<longrightarrow> read_file fs' (table_path file_path key) = Inr (csv_text df)"
    using save_tables_persists [OF dd m _ sv] by blast
  then show ?thesis using r p m dd by blast
qed

theorem later_section_overwrites_earlier_witness:
  "process_file ''GSM1.txt/GSM1.txt''
     (Dir [(''GSM1.txt'', Dir [(''GSM1.txt'', File False
        (''[Probes]'' @ [NL] @ ''ID_REF'' @ [NL] @ ''1'' @ [NL] @
         ''[Probes]'' @ [NL] @ ''ID_REF'' @ [NL] @ ''2'' @ [NL] @
         ''[Controls]'' @ [NL] @ ''ID_REF'' @ [NL]))])]) =
     (Done,
      Dir [(''GSM1.txt'', Dir [(''GSM1.txt'', File False
        (''[Probes]'' @ [NL] @ ''ID_REF'' @ [NL] @ ''1'' @ [NL] @
         ''[Probes]'' @ [NL] @ ''ID_REF'' @ [NL] @ ''2'' @ [NL] @
         ''[Controls]'' @ [NL] @ ''ID_REF'' @ [NL])),
        (''GSM1_Probes.tsv'', File False (''ID_REF'' @ [NL] @ ''2'' @ [NL])),
        (''GSM1_Controls.tsv'', File False (''ID_REF'' @ [NL]))])])
   \<and> read_csv Infer (concat [''ID_REF'' @ [NL], ''2'' @ [NL]]) =
       Inr \<lparr>columns = [Name ''ID_REF''], rows = [[''2'']]\<rparr>
   \<and> read_file
       (Dir [(''GSM1.txt'', Dir [(''GSM1.txt'', File False
          (''[Probes]'' @ [NL] @ ''ID_REF'' @ [NL] @ ''1'' @ [NL] @
           ''[Probes]'' @ [NL] @ ''ID_REF'' @ [NL] @ ''2'' @ [NL] @
           ''[Controls]'' @ [NL] @ ''ID_REF'' @ [NL])),
          (''GSM1_Probes.tsv'', File False (''ID_REF'' @ [NL] @ ''2'' @ [NL])),
          (''GSM1_Controls.tsv'', File False (''ID_REF'' @ [NL]))])])
       (table_path ''GSM1.txt/GSM1.txt'' ''Probes'') =
     Inr (csv_text \<lparr>columns = [Name ''ID_REF''], rows = [[''2'']]\<rparr>)"
proof -
  define h where "h = ''[Probes]'' @ [NL]"
  define pre where "pre = [''[Probes]'' @ [NL], ''ID_REF'' @ [NL], ''1'' @ [NL]]"
  define body where "body = [''ID_REF'' @ [NL], ''2'' @ [NL]]"
  define post where "post = [''[Controls]'' @ [NL], ''ID_REF'' @ [NL]]"
  define s where "s = ''[Probes]'' @ [NL] @ ''ID_REF'' @ [NL] @ ''1'' @ [NL] @
         ''[Probes]'' @ [NL] @ ''ID_REF'' @ [NL] @ ''2'' @ [NL] @
         ''[Controls]'' @ [NL] @ ''ID_REF'' @ [NL]"
  define fs where "fs = Dir [(''GSM1.txt'', Dir [(''GSM1.txt'', File False s)])]"
  define fs' where "fs' = Dir [(''GSM1.txt'', Dir [(''GSM1.txt'', File False s),
        (''GSM1_Probes.tsv'', File False (''ID_REF'' @ [NL] @ ''2'' @ [NL])),
        (''GSM1_Controls.tsv'', File False (''ID_REF'' @ [NL]))])]"
  have 1: "startswith h ''[''" unfolding h_def by code_simp
  have 2: "strip (''[]'' @ [NL]) h = ''Probes''" unfolding h_def by code_simp
  have 3: "''Probes'' \<noteq> []" by simp
  have 4: "\<forall>l \<in> set body. \<not> startswith l ''[''" unfolding body_def by code_simp
  have 5: "post = [] \<or> startswith (hd post) ''[''" unfolding post_def by code_simp
  have 6: "\<forall>l \<in> set post. startswith l ''['' \<longrightarrow> strip (''[]'' @ [NL]) l \<noteq> ''Probes''"
    unfolding post_def by code_simp
  have 7: "read_file fs ''GSM1.txt/GSM1.txt'' = Inr s"
    unfolding fs_def s_def by code_simp
  have 8: "readlines (universal_newlines s) = pre @ h # body @ post"
    unfolding s_def pre_def h_def body_def post_def by code_simp
  have 9: "process_file ''GSM1.txt/GSM1.txt'' fs = (Done, fs')"
    unfolding fs_def fs'_def s_def by code_simp
  have ne: "post \<noteq> []" unfolding post_def by simp
  have k: "CHR ''/'' \<notin> set ''Probes''" by simp
  have e: "read_csv Infer (concat body) = Inr \<lparr>columns = [Name ''ID_REF''], rows = [[''2'']]\<rparr>"
    unfolding body_def by code_simp
  from later_section_overwrites_earlier [OF 1 2 3 4 5 6 7 8 9]
  obtain df where r: "read_csv Infer (concat body) = Inr df"
    and f: "read_file fs' (table_path ''GSM1.txt/GSM1.txt'' ''Probes'') = Inr (csv_text df)"
    using ne k by auto
  have "df = \<lparr>columns = [Name ''ID_REF''], rows = [[''2'']]\<rparr>"
    using r e by simp
  then show ?thesis
    using 9 e f by (simp add: fs_def fs'_def s_def body_def)
qed

text \<open>
  The search of \<open>free_suffix\<close> ends at a name that is free: the numbers are written
  differently, so the header cannot hold the name and as many numbered names as it
  has entries.
\<close>

lemma show_nat_nonempty: "show_nat n \<noteq> []"
  by (subst show_nat.simps) simp

lemma digit_inj:
  assumes "a < 10" and "b < 10" and "(char_of (48 + a) :: char) = char_of (48 + b)"
  shows "a = (b :: nat)"
proof -
  have "of_char (char_of (48 + a) :: char) = (of_char (char_of (48 + b) :: char) :: nat)"
    using assms(3) by simp
  then show ?thesis using assms(1,2) by (simp add: of_char_of)
qed

lemma show_nat_inj: "show_nat m = show_nat n \<Longrightarrow> m = n"
proof (induction m arbitrary: n rule: show_nat.induct)
  case (1 m)
  show ?case
  proof (cases "m < 10")
    case True
    then have m: "show_nat m = [char_of (48 + m)]" by (subst show_nat.simps) simp
    show ?thesis
    proof (cases "n < 10")
      case n: True
      then have "show_nat n = [char_of (48 + n)]" by (subst show_nat.simps) simp
      then show ?thesis using 1(2) m True n digit_inj by simp
    next
      case False
      then have "show_nat n = show_nat (n div 10) @ [char_of (48 + n mod 10)]"
        by (subst show_nat.simps) simp
      then show ?thesis using 1(2) m show_nat_nonempty [of "n div 10"] by simp
    qed
  next
    case False
    then have m: "show_nat m = show_nat (m div 10) @ [char_of (48 + m mod 10)]"
      by (subst show_nat.simps) simp
    show ?thesis
    proof (cases "n < 10")
      case True
      then have "show_nat n = [char_of (48 + n)]" by (subst show_nat.simps) simp
      then show ?thesis using 1(2) m show_nat_nonempty [of "m div 10"] by simp
    next
      case n: False
      then have "show_nat n = show_nat (n div 10) @ [char_of (48 + n mod 10)]"
        by (subst show_nat.simps) simp
      then have a: "show_nat (m div 10) = show_nat (n div 10)"
        and b: "(char_of (48 + m mod 10) :: char) = char_of (48 + n mod 10)"
        using 1(2) m by simp_all
      have "m div 10 = n div 10" using 1(1) [OF False a] .
      moreover have "m mod 10 = n mod 10" using b digit_inj by simp
      ultimately show ?thesis by (metis div_mult_mod_eq)
    qed
  qed
qed

lemma free_suffix_result:
  "free_suffix hdr old k n = r \<Longrightarrow>
     (r < k + n \<and> old @ ''.'' @ show_nat r \<notin> set hdr)
     \<or> (r = k + n \<and> (\<forall>j. k \<le> j \<and> j < k + n \<longrightarrow> old @ ''.'' @ show_nat j \<in> set hdr))"
proof (induction n arbitrary: k)
  case 0
  then show ?case by auto
next
  case (Suc n)
  show ?case
  proof (cases "old @ ''.'' @ show_nat k \<in> set hdr")
    case False
    then show ?thesis using Suc.prems by simp
  next
    case True
    then have "free_suffix hdr old (Suc k) n = r" using Suc.prems by simp
    from Suc.IH [OF this] show ?thesis
    proof
      assume "r < Suc k + n \<and> old @ ''.'' @ show_nat r \<notin> set hdr"
      then show ?thesis by simp
    next
      assume a: "r = Suc k + n \<and> (\<forall>j. Suc k \<le> j \<and> j < Suc k + n \<longrightarrow>
          old @ ''.'' @ show_nat j \<in> set hdr)"
      have "\<forall>j. k \<le> j \<and> j < k + Suc n \<longrightarrow> old @ ''.'' @ show_nat j \<in> set hdr"
      proof (intro allI impI)
        fix j assume "k \<le> j \<and> j < k + Suc n"
        then have "j = k \<or> (Suc k \<le> j \<and> j < Suc k + n)" by auto
        then show "old @ ''.'' @ show_nat j \<in> set hdr" using True a by auto
      qed
      then show ?thesis using a by simp
    qed
  qed
qed

lemma free_suffix_free:
  assumes "old \<in> set hdr"
  shows "old @ ''.'' @ show_nat (free_suffix hdr old k (length hdr)) \<notin> set hdr"
proof (rule ccontr)
  assume "\<not> ?thesis"
  then have all: "\<forall>j. k \<le> j \<and> j < k + length hdr \<longrightarrow> old @ ''.'' @ show_nat j \<in> set hdr"
    using free_suffix_result [of hdr old k "length hdr", OF refl] by auto
  define f where "f = (\<lambda>j. old @ ''.'' @ show_nat j)"
  have inj: "inj_on f {k..<k + length hdr}"
    by (auto simp: inj_on_def f_def dest: show_nat_inj)
  have sub: "insert old (f ` {k..<k + length hdr}) \<subseteq> set hdr"
    using all assms by (auto simp: f_def)
  have "old \<notin> f ` {k..<k + length hdr}" by (auto simp: f_def)
  then have "card (insert old (f ` {k..<k + length hdr})) = Suc (length hdr)"
    using inj by (simp add: card_image)
  moreover have "card (insert old (f ` {k..<k + length hdr})) \<le> card (set hdr)"
    using sub by (intro card_mono) simp_all
  moreover have "card (set hdr) \<le> length hdr" by (rule card_length)
  ultimately show False by simp
qed

lemma universal_newlines_id: "CR \<notin> set s \<Longrightarrow> universal_newlines s = s"
  by (induction s rule: universal_newlines.induct) auto

lemma is_blank_Nil: "is_blank []"
  by (simp add: is_blank_def)

lemma nonblank_lines_single:
  assumes "\<not> is_blank hl" and "NL \<notin> set hl" and "CR \<notin> set hl"
  shows "nonblank_lines (hl @ [NL]) = [hl]"
proof -
  have "CR \<notin> set (hl @ [NL])"
    using assms(3) by (simp add: CR_def NL_def)
  then have "universal_newlines (hl @ [NL]) = hl @ [NL]"
    by (rule universal_newlines_id)
  then show ?thesis
    using assms split_on_append [of NL hl "[]"]
    by (simp add: nonblank_lines_def split_on_no_sep is_blank_Nil)
qed

lemma read_csv_empty: "read_csv header [] = Inl EmptyDataError"
  by (simp add: read_csv_def nonblank_lines_def is_blank_Nil)

lemma read_csv_header_only:
  assumes "\<not> is_blank hl" and "NL \<notin> set hl" and "CR \<notin> set hl"
  shows "read_csv Infer (hl @ [NL]) =
           Inr \<lparr>columns = map Name (header_names (tab_fields hl)), rows = []\<rparr>"
    and "read_csv NoHeader (hl @ [NL]) =
           Inr \<lparr>columns = map Pos [0..<length (tab_fields hl)], rows = [tab_fields hl]\<rparr>"
  using assms by (simp_all add: read_csv_def nonblank_lines_single build_table_def pad_row_def)

text \<open>
  A line of plain text: printable ASCII characters and tabs, no double quote. Such a
  line holds no line end, and the tokenizer cuts it at its tabs and nowhere else.
\<close>

lemma plain_line:
  assumes "\<forall>c \<in> set hl. c = TAB \<or> (32 \<le> (of_char c :: nat) \<and> (of_char c :: nat) \<le> 126
              \<and> c \<noteq> CHR 0x22)"
  shows "NL \<notin> set hl" and "CR \<notin> set hl"
proof -
  have "\<not> (NL = TAB \<or> (32 \<le> (of_char NL :: nat) \<and> (of_char NL :: nat) \<le> 126
           \<and> NL \<noteq> CHR 0x22))"
    by (simp add: NL_def TAB_def)
  then show "NL \<notin> set hl" using assms by blast
  have "\<not> (CR = TAB \<or> (32 \<le> (of_char CR :: nat) \<and> (of_char CR :: nat) \<le> 126
           \<and> CR \<noteq> CHR 0x22))"
    by (simp add: CR_def TAB_def)
  then show "CR \<notin> set hl" using assms by blast
qed

text \<open>
  Claim C4, as stated, fails. A file whose only line is \<^verbatim>\<open>[Probes]\<close> has one section
  with an empty buffer; reading it raises \<^verbatim>\<open>EmptyDataError\<close>, and \<^verbatim>\<open>process_file\<close> ends
  with that exception without writing a table. The same happens to a \<^verbatim>\<open>Heading\<close>
  section with no line that another section follows.
\<close>

theorem empty_section_counterexample:
  "process_file ''GSM1.txt/GSM1.txt''
     (Dir [(''GSM1.txt'', Dir [(''GSM1.txt'', File False (''[Probes]'' @ [NL]))])]) =
     (Raised EmptyDataError,
      Dir [(''GSM1.txt'', Dir [(''GSM1.txt'', File False (''[Probes]'' @ [NL]))])])
   \<and> parse_sections [''[Heading]'' @ [NL], ''[Probes]'' @ [NL], ''ID_REF'' @ [NL]] =
       Inl EmptyDataError"
  by code_simp

text \<open>
  Claim C4, amended. An empty file gives no table and no failure. Take a section
  whose buffer is one line of plain text (printable ASCII and tabs, not blank, no
  double quote) and no data row. Read with the inferred header, which is at the end
  of the input for every key and mid-file for every key but \<^verbatim>\<open>Heading\<close>, it parses to
  a table with the names of that line as its header and no rows. A \<^verbatim>\<open>Heading\<close>
  section of one line read mid-file is a table without header, with one column for
  each field of the line and one row. A section whose buffer is empty raises
  \<^verbatim>\<open>EmptyDataError\<close>, at the end of the input and mid-file, for every key.
\<close>

theorem empty_section_raises_header_only_parses:
  assumes "startswith h ''[''" and "strip (''[]'' @ [NL]) h = key" and "key \<noteq> []"
    and "process_lines initial_state (pre @ [h]) = Inr st"
    and "\<forall>c \<in> set hl. c = TAB \<or> (32 \<le> (of_char c :: nat) \<and> (of_char c :: nat) \<le> 126
              \<and> c \<noteq> CHR 0x22)"
    and "\<not> is_blank hl" and "\<not> startswith hl ''[''"
    and "startswith p ''[''"
  shows "parse_sections [] = Inr []
       \<and> (read_file fs file_path = Inr [] \<longrightarrow> process_file file_path fs = (Done, fs))
       \<and> parse_sections (pre @ [h, hl @ [NL]]) =
           Inr (dict_set key \<lparr>columns = map Name (header_names (tab_fields hl)), rows = []\<rparr> (dfs st))
       \<and> (\<exists>t. process_lines initial_state (pre @ [h, hl @ [NL], p]) =
                 Inr \<lparr>write_key = Some (strip (''[]'' @ [NL]) p), fio = [],
                      dfs = dict_set key t (dfs st)\<rparr>
              \<and> (if key = ''Heading''
                  then columns t = map Pos [0..<length (tab_fields hl)] \<and> length (rows t) = 1
                  else t = \<lparr>columns = map Name (header_names (tab_fields hl)), rows = []\<rparr>))
       \<and> parse_sections (pre @ [h]) = Inl EmptyDataError
       \<and> process_lines initial_state (pre @ [h, p]) = Inl EmptyDataError"
proof -
  note nl = plain_line [OF assms(5)]
  have b: "\<forall>l \<in> set [hl @ [NL]]. \<not> startswith l ''[''"
    using assms(6,7) by (cases hl) (auto simp: startswith_def is_blank_def)
  note one = section_read [OF assms(1,2,3) b assms(8,4)]
  have e: "\<forall>l \<in> set []. \<not> startswith l ''[''" by simp
  note none = section_read [OF assms(1,2,3) e assms(8,4)]
  have 1: "parse_sections [] = Inr []"
    by (simp add: parse_sections_def initial_state_def finish_def)
  have 2: "read_file fs file_path = Inr [] \<longrightarrow> process_file file_path fs = (Done, fs)"
    using 1 by (simp add: process_file_def)
  note ro = read_csv_header_only [OF assms(6) nl]
  have 3: "\<exists>t. process_lines initial_state (pre @ [h, hl @ [NL], p]) =
              Inr \<lparr>write_key = Some (strip (''[]'' @ [NL]) p), fio = [],
                   dfs = dict_set key t (dfs st)\<rparr>
            \<and> (if key = ''Heading''
                then columns t = map Pos [0..<length (tab_fields hl)] \<and> length (rows t) = 1
                else t = \<lparr>columns = map Name (header_names (tab_fields hl)), rows = []\<rparr>)"
  proof (cases "key = ''Heading''")
    case True
    have "process_lines initial_state (pre @ [h, hl @ [NL], p]) =
            Inr \<lparr>write_key = Some (strip (''[]'' @ [NL]) p), fio = [],
                 dfs = dict_set key
                   \<lparr>columns = map Pos [0..<length (tab_fields hl)], rows = [tab_fields hl]\<rparr>
                   (dfs st)\<rparr>"
      using one True by (simp add: ro)
    then show ?thesis using True by (intro exI conjI) (assumption, simp)
  next
    case False
    then show ?thesis using one by (simp add: ro)
  qed
  show ?thesis
    using one none 1 2 3
    by (simp add: ro read_csv_empty)
qed

theorem empty_section_raises_header_only_parses_witness:
  "parse_sections [''[Probes]'' @ [NL], ''ID_REF'' @ [NL]] =
     Inr [(''Probes'', \<lparr>columns = [Name ''ID_REF''], rows = []\<rparr>)]
   \<and> parse_sections [''[Probes]'' @ [NL]] = Inl EmptyDataError
   \<and> process_lines initial_state [''[Probes]'' @ [NL], ''[Controls]'' @ [NL]] =
       Inl EmptyDataError
   \<and> (\<exists>t. process_lines initial_state
               [''[Heading]'' @ [NL], ''a'' @ [TAB] @ ''b'' @ [NL], ''[Controls]'' @ [NL]] =
             Inr \<lparr>write_key = Some ''Controls'', fio = [], dfs = [(''Heading'', t)]\<rparr>
          \<and> columns t = [Pos 0, Pos 1] \<and> length (rows t) = 1)"
proof -
  define g where "g = ''[Heading]'' @ [NL]"
  define hl where "hl = ''a'' @ [TAB] @ ''b''"
  have g1: "startswith g ''[''" unfolding g_def by code_simp
  have g2: "strip (''[]'' @ [NL]) g = ''Heading''" unfolding g_def by code_simp
  have g3: "''Heading'' \<noteq> []" by simp
  have g4: "process_lines initial_state ([] @ [g]) =
             Inr \<lparr>write_key = Some ''Heading'', fio = [], dfs = []\<rparr>"
    unfolding g_def by code_simp
  have g5: "\<forall>c \<in> set hl. c = TAB \<or> (32 \<le> (of_char c :: nat)
             \<and> (of_char c :: nat) \<le> 126 \<and> c \<noteq> CHR 0x22)"
    unfolding hl_def by code_simp
  have g6: "\<not> is_blank hl" "\<not> startswith hl ''[''"
    unfolding hl_def by code_simp+
  have g7: "startswith (''[Controls]'' @ [NL]) ''[''" by code_simp
  have g8: "strip (''[]'' @ [NL]) (''[Controls]'' @ [NL]) = ''Controls''" by code_simp
  have g9: "map Pos [0..<length (tab_fields hl)] = [Pos 0, Pos 1]"
    unfolding hl_def by code_simp
  have "\<exists>t. process_lines initial_state ([] @ [g, hl @ [NL], ''[Controls]'' @ [NL]]) =
             Inr \<lparr>write_key = Some (strip (''[]'' @ [NL]) (''[Controls]'' @ [NL])), fio = [],
                  dfs = dict_set ''Heading'' t
                    (dfs \<lparr>write_key = Some ''Heading'', fio = [], dfs = []\<rparr>)\<rparr>
          \<and> (if ''Heading'' = ''Heading''
              then columns t = map Pos [0..<length (tab_fields hl)] \<and> length (rows t) = 1
              else t = \<lparr>columns = map Name (header_names (tab_fields hl)), rows = []\<rparr>)"
    using empty_section_raises_header_only_parses [OF g1 g2 g3 g4 g5 g6 g7] by blast
  then have heading: "\<exists>t. process_lines initial_state
               [''[Heading]'' @ [NL], ''a'' @ [TAB] @ ''b'' @ [NL], ''[Controls]'' @ [NL]] =
             Inr \<lparr>write_key = Some ''Controls'', fio = [], dfs = [(''Heading'', t)]\<rparr>
          \<and> columns t = [Pos 0, Pos 1] \<and> length (rows t) = 1"
    unfolding g8 g9 by (simp add: g_def hl_def)
  define h where "h = ''[Probes]'' @ [NL]"
  define p where "p = ''[Controls]'' @ [NL]"
  have 1: "startswith h ''[''" unfolding h_def by code_simp
  have 2: "strip (''[]'' @ [NL]) h = ''Probes''" unfolding h_def by code_simp
  have 3: "''Probes'' \<noteq> []" by simp
  have 4: "process_lines initial_state ([] @ [h]) =
             Inr \<lparr>write_key = Some ''Probes'', fio = [], dfs = []\<rparr>"
    unfolding h_def by code_simp
  have 5: "\<forall>c \<in> set ''ID_REF''. c = TAB \<or> (32 \<le> (of_char c :: nat)
             \<and> (of_char c :: nat) \<le> 126 \<and> c \<noteq> CHR 0x22)"
    by code_simp
  have 6: "\<not> is_blank ''ID_REF''" "\<not> startswith ''ID_REF'' ''[''"
    by code_simp+
  have 7: "startswith p ''[''" unfolding p_def by code_simp
  have n: "header_names (tab_fields ''ID_REF'') = [''ID_REF'']" by code_simp
  have "parse_sections [h, ''ID_REF'' @ [NL]] =
          Inr [(''Probes'', \<lparr>columns = [Name ''ID_REF''], rows = []\<rparr>)]
        \<and> parse_sections [h] = Inl EmptyDataError
        \<and> process_lines initial_state [h, p] = Inl EmptyDataError"
    using empty_section_raises_header_only_parses [OF 1 2 3 4 5 6 7] n
    by simp
  then show ?thesis using heading by (simp only: h_def p_def simp_thms)
qed

section \<open>OriginalDataCleaner\<close>

text \<open>
  No deletion that fails ends the run: whatever the file system, the run returns,
  unless the path of the processed directory is one Python refuses (an embedded null
  character), which ends the run at the first walk.
\<close>

lemma cleaner_always_done:
  assumes "\<not> embedded_null processed_data_dir"
  shows "fst (DeleteOriginalData_run dataset_id download_dir processed_data_dir output_dir fs) =
           Done"
  using assms
  by (simp add: DeleteOriginalData_run_def original_items_of_def os_walk_def
      os_walk_bottomup_def Let_def split: prod.splits sum.splits)

lemma cleaner_null_path:
  assumes "embedded_null processed_data_dir"
  shows "DeleteOriginalData_run dataset_id download_dir processed_data_dir output_dir fs =
           (Raised ValueError, fs, [])"
  using assms by (simp add: DeleteOriginalData_run_def original_items_of_def os_walk_def)

text \<open>
  Every system call of the run unlinks an entry or fails, so the run creates nothing:
  on a well-formed tree, a path that exists afterwards existed before. A stage that
  was not complete when the scheduler started it is therefore not complete when its
  run is done.
\<close>

lemma lookup_in_absent: "k \<notin> fst ` set es \<Longrightarrow> lookup_in es k q = None"
  by (induction es) auto

lemma modify_delete:
  assumes "\<forall>cur r. f cur = Inr r \<longrightarrow> r = None"
  shows "modify f cs n = Inr n' \<Longrightarrow> wf_node n \<Longrightarrow>
           wf_node n' \<and> (lookup n' q \<noteq> None \<longrightarrow> lookup n q \<noteq> None)"
    and "modify_in f c cs es = Inr es' \<Longrightarrow> wf_entries es \<Longrightarrow>
           wf_entries es' \<and> fst ` set es' \<subseteq> fst ` set es
           \<and> (lookup_in es' c' q \<noteq> None \<longrightarrow> lookup_in es c' q \<noteq> None)"
  using assms
proof (induction f cs n and f c cs es arbitrary: n' q and es' c' q rule: modify_modify_in.induct)
  case (1 f n)
  show ?case
  proof (cases "f (Some n)")
    case (Inl e)
    then show ?thesis using 1(1) by simp
  next
    case (Inr r)
    then show ?thesis using 1(1) 1(3) by (auto split: option.splits)
  qed
next
  case (2 f c cs l s)
  then show ?case by simp
next
  case (3 f c cs es)
  from 3(2) obtain es1 where m: "modify_in f c cs es = Inr es1" and n': "n' = Dir es1"
    by (auto split: sum.splits)
  have w: "wf_entries es" using 3(3) by simp
  show ?case
  proof (cases q)
    case Nil
    then show ?thesis using 3(1) [OF m w 3(4)] n' by simp
  next
    case (Cons c' q')
    then show ?thesis using 3(1) [OF m w 3(4), where c' = c' and q = q'] n' by simp
  qed
next
  case (4 f c cs)
  show ?case
  proof (cases "f None")
    case (Inl e)
    then show ?thesis using 4(1) by (simp split: if_splits)
  next
    case (Inr r)
    then show ?thesis using 4(1) 4(3) by (auto split: if_splits option.splits)
  qed
next
  case (5 f c cs k n es)
  have w: "k \<notin> fst ` set es" "wf_node n" "wf_entries es" using 5(4) by simp_all
  show ?case
  proof (cases "k = c")
    case True
    show ?thesis
    proof (cases "cs = []")
      case T2: True
      show ?thesis
      proof (cases "f (Some n)")
        case (Inl e)
        then show ?thesis using 5(3) True T2 by simp
      next
        case (Inr r)
        then have e: "es' = es"
          using 5(3) True T2 5(5) by (auto split: option.splits)
        then show ?thesis
          using w True lookup_in_absent [of k es] by auto
      qed
    next
      case False
      then obtain n1 where m: "modify f cs n = Inr n1" and e: "es' = (k, n1) # es"
        using 5(3) True by (auto split: sum.splits)
      show ?thesis
        using 5(1) [OF True False m w(2) 5(5), where q = q] w e by auto
    qed
  next
    case False
    then obtain es1 where m: "modify_in f c cs es = Inr es1" and e: "es' = (k, n) # es1"
      using 5(3) by (auto split: sum.splits)
    show ?thesis
      using 5(2) [OF False m w(3) 5(5), where c' = c' and q = q] w e by auto
  qed
qed

lemma os_remove_deletes:
  assumes "os_remove p fs = Inr fs'" and "wf_node fs"
  shows "wf_node fs' \<and> (os_path_exists fs' q \<longrightarrow> os_path_exists fs q)"
proof -
  define f :: "node option \<Rightarrow> os_error + node option" where
    "f = (\<lambda>cur. case cur of None \<Rightarrow> Inl ENOENT
                 | Some (File l s) \<Rightarrow> if l then Inl EPERM else Inr None
                 | Some (Dir es) \<Rightarrow> Inl EISDIR)"
  have D: "\<forall>cur r. f cur = Inr r \<longrightarrow> r = None"
    by (auto simp: f_def split: option.splits node.splits if_splits)
  have m: "modify f (parts p) fs = Inr fs'"
    using assms(1) by (simp add: os_remove_def f_def split: if_splits)
  have "wf_node fs' \<and> (lookup fs' (parts q) \<noteq> None \<longrightarrow> lookup fs (parts q) \<noteq> None)"
    using modify_delete(1) [where f = f and q = "parts q", OF D m assms(2)] by simp
  then show ?thesis
    by (auto simp: os_path_exists_def stat_def)
qed

lemma os_rmdir_deletes:
  assumes "os_rmdir p fs = Inr fs'" and "wf_node fs"
  shows "wf_node fs' \<and> (os_path_exists fs' q \<longrightarrow> os_path_exists fs q)"
proof -
  define f :: "node option \<Rightarrow> os_error + node option" where
    "f = (\<lambda>cur. case cur of None \<Rightarrow> Inl ENOENT
                 | Some (File l s) \<Rightarrow> Inl ENOTDIR
                 | Some (Dir es) \<Rightarrow> if es = [] then Inr None else Inl ENOTEMPTY)"
  have D: "\<forall>cur r. f cur = Inr r \<longrightarrow> r = None"
    by (auto simp: f_def split: option.splits node.splits if_splits)
  have m: "modify f (parts p) fs = Inr fs'"
    using assms(1) by (simp add: os_rmdir_def f_def split: if_splits)
  have "wf_node fs' \<and> (lookup fs' (parts q) \<noteq> None \<longrightarrow> lookup fs (parts q) \<noteq> None)"
    using modify_delete(1) [where f = f and q = "parts q", OF D m assms(2)] by simp
  then show ?thesis
    by (auto simp: os_path_exists_def stat_def)
qed

lemma remove_files_deletes:
  assumes "remove_files items (fs, log) = (fs', log')" and "wf_node fs"
  shows "wf_node fs' \<and> (os_path_exists fs' q \<longrightarrow> os_path_exists fs q)"
  using assms
proof (induction items arbitrary: fs log)
  case Nil
  then show ?case by simp
next
  case (Cons a items)
  show ?case
  proof (cases "os_path_isfile fs a")
    case False
    then show ?thesis using Cons by simp
  next
    case True
    show ?thesis
    proof (cases "os_remove a fs")
      case (Inl e)
      then show ?thesis using Cons True by simp
    next
      case (Inr fs1)
      have "wf_node fs1 \<and> (os_path_exists fs1 q \<longrightarrow> os_path_exists fs q)"
        using os_remove_deletes [OF Inr Cons.prems(2)] by simp
      moreover have "remove_files items (fs1, log @ [FileDeleted a]) = (fs', log')"
        using Cons.prems(1) True Inr by simp
      ultimately show ?thesis
        using Cons.IH [of fs1 "log @ [FileDeleted a]"] by blast
    qed
  qed
qed

lemma rmdir_each_deletes:
  assumes "rmdir_each root ds (fs, log) = (fs', log')" and "wf_node fs"
  shows "wf_node fs' \<and> (os_path_exists fs' q \<longrightarrow> os_path_exists fs q)"
  using assms
proof (induction ds arbitrary: fs log)
  case Nil
  then show ?case by simp
next
  case (Cons a ds)
  show ?case
  proof (cases "os_rmdir (os_path_join root a) fs")
    case (Inl e)
    then show ?thesis using Cons by (simp add: Let_def)
  next
    case (Inr fs1)
    have "wf_node fs1 \<and> (os_path_exists fs1 q \<longrightarrow> os_path_exists fs q)"
      using os_rmdir_deletes [OF Inr Cons.prems(2)] by simp
    moreover have "rmdir_each root ds (fs1, log @ [DirectoryDeleted (os_path_join root a)]) =
        (fs', log')"
      using Cons.prems(1) Inr by (simp add: Let_def)
    ultimately show ?thesis
      using Cons.IH [of fs1 "log @ [DirectoryDeleted (os_path_join root a)]"] by blast
  qed
qed

lemma remove_dirs_deletes:
  assumes "remove_dirs ts (fs, log) = (fs', log')" and "wf_node fs"
  shows "wf_node fs' \<and> (os_path_exists fs' q \<longrightarrow> os_path_exists fs q)"
  using assms
proof (induction ts arbitrary: fs log)
  case Nil
  then show ?case by simp
next
  case (Cons t ts)
  obtain root ds fl where t: "t = (root, ds, fl)" by (cases t)
  obtain fs1 log1 where r: "rmdir_each root ds (fs, log) = (fs1, log1)"
    by (cases "rmdir_each root ds (fs, log)")
  have "wf_node fs1 \<and> (os_path_exists fs1 q \<longrightarrow> os_path_exists fs q)"
    using rmdir_each_deletes [OF r Cons.prems(2)] by simp
  moreover have "remove_dirs ts (fs1, log1) = (fs', log')"
    using Cons.prems(1) r by (simp add: t)
  ultimately show ?case
    using Cons.IH [of fs1 log1] by blast
qed

lemma cleaner_creates_nothing:
  assumes "wf_node fs"
    and "DeleteOriginalData_run dataset_id download_dir processed_data_dir output_dir fs =
           (r, fs', log)"
  shows "os_path_exists fs' q \<longrightarrow> os_path_exists fs q"
proof (cases "original_items_of fs processed_data_dir")
  case (Inl e)
  then show ?thesis using assms(2) by (simp add: DeleteOriginalData_run_def)
next
  case (Inr items)
  show ?thesis
  proof (cases "items = []")
    case True
    then show ?thesis using assms(2) Inr by (simp add: DeleteOriginalData_run_def Let_def)
  next
    case False
    obtain fs1 log1 where 1: "remove_files items (fs, [FoundOriginalFiles items]) = (fs1, log1)"
      by (cases "remove_files items (fs, [FoundOriginalFiles items])")
    have a: "wf_node fs1 \<and> (os_path_exists fs1 q \<longrightarrow> os_path_exists fs q)"
      using remove_files_deletes [OF 1 assms(1)] by simp
    show ?thesis
    proof (cases "os_walk_bottomup fs1 processed_data_dir")
      case (Inl e)
      then have "fs' = fs1"
        using assms(2) Inr False 1 by (simp add: DeleteOriginalData_run_def Let_def)
      then show ?thesis using a by simp
    next
      case triples: (Inr triples)
      obtain fs2 log2 where 2: "remove_dirs triples (fs1, log1) = (fs2, log2)"
        by (cases "remove_dirs triples (fs1, log1)")
      have b: "wf_node fs2 \<and> (os_path_exists fs2 q \<longrightarrow> os_path_exists fs1 q)"
        using remove_dirs_deletes [OF 2] a by simp
      show ?thesis
      proof (cases "os_rmdir processed_data_dir fs2")
        case (Inl e)
        then have "fs' = fs2"
          using assms(2) Inr False 1 triples 2
          by (simp add: DeleteOriginalData_run_def Let_def)
        then show ?thesis using a b by simp
      next
        case fs3: (Inr fs3)
        then have "fs' = fs3"
          using assms(2) Inr False 1 triples 2
          by (simp add: DeleteOriginalData_run_def Let_def)
        then show ?thesis
          using a b os_rmdir_deletes [OF fs3, of q] by simp
      qed
    qed
  qed
qed

lemma cleaner_leaves_stage_incomplete:
  assumes "wf_node fs"
    and "\<not> complete (DeleteOriginalData dataset_id download_dir processed_data_dir output_dir) fs"
    and "DeleteOriginalData_run dataset_id download_dir processed_data_dir output_dir fs =
           (r, fs', log)"
  shows "\<not> complete (DeleteOriginalData dataset_id download_dir processed_data_dir output_dir) fs'"
  using assms cleaner_creates_nothing [OF assms(1,3)]
  by (auto simp: complete_def)

text \<open>
  Claim C2. The first half holds for every path of the processed directory that
  Python accepts (\<open>cleaner_always_done\<close>). The second does not: \<^verbatim>\<open>run\<close> never writes
  \<^verbatim>\<open>delete_original_data.done\<close>, the target \<^verbatim>\<open>output\<close> declares
  (\<open>cleaner_leaves_stage_incomplete\<close>). In the first run below everything is deleted,
  the processed directory too; in the second one file cannot be deleted, and the
  failures are logged. Both runs are done, and after both the stage is not complete.
\<close>

theorem cleaner_never_writes_marker:
  "DeleteOriginalData_run ''GSE68849'' ''data'' ''processed_data'' ''trimmed_probes''
     (Dir [(''processed_data'', Dir [(''GSM1.txt'', Dir
        [(''GSM1.txt'', File False ''x''),
         (''GSM1_Probes.tsv'', File False (''ID_REF'' @ [NL]))])])]) =
     (Done, Dir [],
      [FoundOriginalFiles [''processed_data/GSM1.txt'', ''processed_data/GSM1.txt/GSM1.txt'',
                           ''processed_data/GSM1.txt/GSM1_Probes.tsv''],
       FileDeleted ''processed_data/GSM1.txt/GSM1.txt'',
       FileDeleted ''processed_data/GSM1.txt/GSM1_Probes.tsv'',
       DirectoryDeleted ''processed_data/GSM1.txt'',
       MainDirectoryDeleted ''processed_data''])
   \<and> \<not> complete (DeleteOriginalData ''GSE68849'' ''data'' ''processed_data'' ''trimmed_probes'')
         (Dir [])
   \<and> DeleteOriginalData_run ''GSE68849'' ''data'' ''processed_data'' ''trimmed_probes''
     (Dir [(''processed_data'', Dir [(''GSM1.txt'', Dir
        [(''GSM1.txt'', File True ''x''),
         (''GSM1_Probes.tsv'', File False (''ID_REF'' @ [NL]))])])]) =
     (Done,
      Dir [(''processed_data'', Dir [(''GSM1.txt'', Dir [(''GSM1.txt'', File True ''x'')])])],
      [FoundOriginalFiles [''processed_data/GSM1.txt'', ''processed_data/GSM1.txt/GSM1.txt'',
                           ''processed_data/GSM1.txt/GSM1_Probes.tsv''],
       ErrorDeletingFile ''processed_data/GSM1.txt/GSM1.txt'' EPERM,
       FileDeleted ''processed_data/GSM1.txt/GSM1_Probes.tsv'',
       DirectoryNotDeleted ''processed_data/GSM1.txt'' ENOTEMPTY,
       MainDirectoryNotDeleted ''processed_data'' ENOTEMPTY])
   \<and> \<not> complete (DeleteOriginalData ''GSE68849'' ''data'' ''processed_data'' ''trimmed_probes'')
         (Dir [(''processed_data'', Dir [(''GSM1.txt'', Dir [(''GSM1.txt'', File True ''x'')])])])"
  by code_simp

end
